theory Spec2Isabelle
  imports Main
begin

section \<open>Values crossing the worker boundary\<close>

text \<open>
  The worker of \<^verbatim>\<open>app/packages/looker/src/worker.ts\<close> receives samples and frame chunks
  as JSON-shaped values and mutates them in place. A value is modelled as a tree; an
  object is the list of its own properties in enumeration order, so that the
  \<^verbatim>\<open>for (const field in sample)\<close> loop is a pass over that list. An array is the list
  of its elements, and a decoded mask (the typed array returned by \<^verbatim>\<open>deserialize\<close>) is
  identified with its buffer, the list of its elements. The one named property the
  worker can put on an array or a typed array is an \<^verbatim>\<open>id\<close> that is \<^verbatim>\<open>undefined\<close>
  (\<^verbatim>\<open>mapId\<close> on a value without \<^verbatim>\<open>_id\<close>): the flag of \<open>JArr\<close> and \<open>JBin\<close> tells whether
  that property is there. Numbers are integers, printed in decimal (frame numbers,
  lengths).
\<close>

type_synonym buffer = "nat list"

datatype json =
    JUndef
  | JNull
  | JBool bool
  | JNum int
  | JStr string
  | JBin bool buffer
  | JArr bool "json list"
  | JObj "(string \<times> json) list"

type_synonym obj = "(string \<times> json) list"

text \<open>
  Every way the normalizer can stop is a value: a \<^verbatim>\<open>TypeError\<close> of the language (a
  property of \<^verbatim>\<open>null\<close> or \<^verbatim>\<open>undefined\<close>, a call of what is no function, a property
  written on a primitive in strict mode, an object that has no primitive value), or
  whatever \<^verbatim>\<open>deserialize\<close> throws.
\<close>

datatype error = TypeError | DecodeError

text \<open>\<^verbatim>\<open>obj[k]\<close>: a property that is absent reads as \<^verbatim>\<open>undefined\<close>.\<close>

fun obj_get :: "obj \<Rightarrow> string \<Rightarrow> json" where
  "obj_get [] k = JUndef"
| "obj_get ((k', v) # kvs) k = (if k' = k then v else obj_get kvs k)"

text \<open>\<^verbatim>\<open>obj[k] = v\<close>: an existing property keeps its place, a new one goes last.\<close>

fun obj_set :: "obj \<Rightarrow> string \<Rightarrow> json \<Rightarrow> obj" where
  "obj_set [] k v = [(k, v)]"
| "obj_set ((k', v') # kvs) k v =
     (if k' = k then (k, v) # kvs else (k', v') # obj_set kvs k v)"

text \<open>\<^verbatim>\<open>delete obj[k]\<close>.\<close>

fun obj_delete :: "obj \<Rightarrow> string \<Rightarrow> obj" where
  "obj_delete [] k = []"
| "obj_delete ((k', v') # kvs) k =
     (if k' = k then obj_delete kvs k else (k', v') # obj_delete kvs k)"

text \<open>JavaScript truthiness, as tested by \<^verbatim>\<open>if (!label)\<close> and \<^verbatim>\<open>a && b\<close>.\<close>

fun truthy :: "json \<Rightarrow> bool" where
  "truthy JUndef = False"
| "truthy JNull = False"
| "truthy (JBool b) = b"
| "truthy (JNum n) = (n \<noteq> 0)"
| "truthy (JStr s) = (s \<noteq> [])"
| "truthy (JBin i b) = True"
| "truthy (JArr i xs) = True"
| "truthy (JObj kvs) = True"

text \<open>The \<^verbatim>\<open>length\<close> property of a value that is not null or undefined.\<close>

fun length_of :: "json \<Rightarrow> json" where
  "length_of (JArr i xs) = JNum (int (length xs))"
| "length_of (JStr s) = JNum (int (length s))"
| "length_of (JBin i b) = JNum (int (length b))"
| "length_of (JObj kvs) = obj_get kvs ''length''"
| "length_of v = JUndef"

text \<open>A number in decimal, as \<^verbatim>\<open>String(n)\<close> prints an integer.\<close>

fun dec_nat :: "nat \<Rightarrow> string" where
  "dec_nat n =
     (if n < 10 then [''0123456789'' ! n]
      else dec_nat (n div 10) @ [''0123456789'' ! (n mod 10)])"

definition dec :: "int \<Rightarrow> string" where
  "dec n = (if n < 0 then CHR ''-'' # dec_nat (nat (- n)) else dec_nat (nat n))"

text \<open>\<^verbatim>\<open>Array.prototype.join\<close> of strings, with the separator \<^verbatim>\<open>","\<close>.\<close>

fun join :: "string list \<Rightarrow> string" where
  "join [] = []"
| "join [s] = s"
| "join (s # t # ts) = s @ '','' @ join (t # ts)"

text \<open>
  The property key that \<^verbatim>\<open>x in table\<close> and \<^verbatim>\<open>table[x]\<close> make of a value \<open>x\<close>
  (\<^verbatim>\<open>ToPropertyKey\<close>). A string is its own key; \<^verbatim>\<open>undefined\<close>, \<^verbatim>\<open>null\<close>, a boolean
  and a number are printed; an array and a typed array are the keys of their elements
  joined by commas, \<^verbatim>\<open>undefined\<close> and \<^verbatim>\<open>null\<close> counting as the empty string; an object
  is \<^verbatim>\<open>"[object Object]"\<close>, by the \<^verbatim>\<open>toString\<close> it inherits, unless it has a property
  \<^verbatim>\<open>toString\<close> of its own: a value out of JSON is no function, \<^verbatim>\<open>valueOf\<close> yields the
  object itself, and the conversion throws.
\<close>

fun prop_key :: "json \<Rightarrow> error + string"
  and join_keys :: "json list \<Rightarrow> error + string" where
  "prop_key JUndef = Inr ''undefined''"
| "prop_key JNull = Inr ''null''"
| "prop_key (JBool b) = Inr (if b then ''true'' else ''false'')"
| "prop_key (JNum n) = Inr (dec n)"
| "prop_key (JStr s) = Inr s"
| "prop_key (JBin i b) = Inr (join (map dec_nat b))"
| "prop_key (JArr i xs) = join_keys xs"
| "prop_key (JObj kvs) =
     (if ''toString'' \<in> set (map fst kvs) then Inl TypeError else Inr ''[object Object]'')"
| "join_keys [] = Inr []"
| "join_keys (x # xs) =
     (case (if x = JUndef \<or> x = JNull then Inr [] else prop_key x) of
        Inl e \<Rightarrow> Inl e
      | Inr s \<Rightarrow>
          (if xs = [] then Inr s
           else (case join_keys xs of Inl e \<Rightarrow> Inl e | Inr t \<Rightarrow> Inr (s @ '','' @ t))))"

text \<open>
  The members every object literal inherits from \<^verbatim>\<open>Object.prototype\<close>:
  \<^verbatim>\<open>"toString" in DESERIALIZE\<close> is true although the table has no such entry.
\<close>

definition object_prototype_names :: "string list" where
  "object_prototype_names =
     [''constructor'', ''hasOwnProperty'', ''isPrototypeOf'', ''propertyIsEnumerable'',
      ''toLocaleString'', ''toString'', ''valueOf'', ''__proto__'',
      ''__defineGetter__'', ''__defineSetter__'', ''__lookupGetter__'',
      ''__lookupSetter__'']"

section \<open>Constants and the codec\<close>

text \<open>
  \<^verbatim>\<open>constants.ts\<close> and \<^verbatim>\<open>numpy.ts\<close> are imported by the worker and are not part of
  the sources at hand. They are parameters of the model, each as the worker uses it:
  \<open>CHUNK_SIZE\<close>; \<open>LABELS\<close>, the test \<^verbatim>\<open>cls in LABELS\<close> on a property key; \<open>LABEL_LISTS\<close>,
  the test \<^verbatim>\<open>cls in LABEL_LISTS\<close> together with the property key that
  \<^verbatim>\<open>LABEL_LISTS[cls]\<close> stands for, the name of the list field of that label kind; and
  \<open>deserialize\<close>, which yields a buffer or throws (\<open>None\<close>).
\<close>

record env =
  CHUNK_SIZE :: int
  LABELS :: "string \<Rightarrow> bool"
  LABEL_LISTS :: "string \<Rightarrow> string option"
  deserialize :: "string \<Rightarrow> buffer option"

section \<open>The label normalizer\<close>

text \<open>\<^verbatim>\<open>array.map(f)\<close> for an \<open>f\<close> that may throw: the first exception ends the pass.\<close>

fun map_result :: "('a \<Rightarrow> error + 'b) \<Rightarrow> 'a list \<Rightarrow> error + 'b list" where
  "map_result f [] = Inr []"
| "map_result f (x # xs) =
     (case f x of
        Inl e \<Rightarrow> Inl e
      | Inr y \<Rightarrow> (case map_result f xs of Inl e \<Rightarrow> Inl e | Inr ys \<Rightarrow> Inr (y # ys)))"

text \<open>
  The body shared by the three entries of \<open>DESERIALIZE\<close>:
  \<^verbatim>\<open>if (typeof label.mask === "string") { label.mask = deserialize(label.mask);
  buffers.push(label.mask.buffer); }\<close>
\<close>

definition deserialize_mask :: "env \<Rightarrow> obj \<Rightarrow> error + (buffer list \<times> obj)" where
  "deserialize_mask E label =
     (case obj_get label ''mask'' of
        JStr s \<Rightarrow>
          (case deserialize E s of
             None \<Rightarrow> Inl DecodeError
           | Some b \<Rightarrow> Inr ([b], obj_set label ''mask'' (JBin False b)))
      | _ \<Rightarrow> Inr ([], label))"

text \<open>
  The same body on an element of \<^verbatim>\<open>labels.detections\<close>, which can be any value: only
  an object has a \<^verbatim>\<open>mask\<close>, and \<^verbatim>\<open>null\<close> and \<^verbatim>\<open>undefined\<close> have no properties at all.
\<close>

fun deserialize_mask_val :: "env \<Rightarrow> json \<Rightarrow> error + (buffer list \<times> json)" where
  "deserialize_mask_val E (JObj label) =
     (case deserialize_mask E label of
        Inl e \<Rightarrow> Inl e
      | Inr (bufs, label') \<Rightarrow> Inr (bufs, JObj label'))"
| "deserialize_mask_val E JUndef = Inl TypeError"
| "deserialize_mask_val E JNull = Inl TypeError"
| "deserialize_mask_val E v = Inr ([], v)"

text \<open>
  \<^verbatim>\<open>DESERIALIZE.Detections\<close>: \<^verbatim>\<open>labels.detections.forEach(...)\<close>. Nothing checks
  that \<^verbatim>\<open>detections\<close> is an array: a typed array has a \<^verbatim>\<open>forEach\<close> as well, over
  numbers, and on any other value the call throws.
\<close>

definition deserialize_detections :: "env \<Rightarrow> obj \<Rightarrow> error + (buffer list \<times> obj)" where
  "deserialize_detections E labels =
     (case obj_get labels ''detections'' of
        JArr i xs \<Rightarrow>
          (case map_result (deserialize_mask_val E) xs of
             Inl e \<Rightarrow> Inl e
           | Inr rs \<Rightarrow>
               Inr (concat (map fst rs), obj_set labels ''detections'' (JArr i (map snd rs))))
      | JBin i b \<Rightarrow> Inr ([], labels)
      | _ \<Rightarrow> Inl TypeError)"

text \<open>
  A tag that names an inherited member passes the test \<^verbatim>\<open>label._cls in DESERIALIZE\<close>
  too, and line 55 then calls that member of \<^verbatim>\<open>Object.prototype\<close> on the table, with
  the label and the buffers as arguments. \<^verbatim>\<open>__proto__\<close> is no function, and
  \<^verbatim>\<open>__defineGetter__\<close> and \<^verbatim>\<open>__defineSetter__\<close> want a function where they get the
  buffers: these three throw. \<^verbatim>\<open>hasOwnProperty\<close>, \<^verbatim>\<open>propertyIsEnumerable\<close>,
  \<^verbatim>\<open>__lookupGetter__\<close> and \<^verbatim>\<open>__lookupSetter__\<close> take the label for a property key. The
  others return at once. None of them changes the label.
\<close>

definition inherited_member :: "string \<Rightarrow> obj \<Rightarrow> error + (buffer list \<times> obj)" where
  "inherited_member name label =
     (if name \<in> set [''__proto__'', ''__defineGetter__'', ''__defineSetter__'']
      then Inl TypeError
      else if name \<in> set [''hasOwnProperty'', ''propertyIsEnumerable'',
                           ''__lookupGetter__'', ''__lookupSetter__'']
      then (case prop_key (JObj label) of Inl e \<Rightarrow> Inl e | Inr key \<Rightarrow> Inr ([], label))
      else Inr ([], label))"

text \<open>
  The table \<open>DESERIALIZE\<close>: what \<^verbatim>\<open>DESERIALIZE[cls]\<close> is when \<^verbatim>\<open>cls in DESERIALIZE\<close>,
  one of the table's three entries or an inherited member.
\<close>

definition DESERIALIZE :: "env \<Rightarrow> string \<Rightarrow> (obj \<Rightarrow> error + (buffer list \<times> obj)) option" where
  "DESERIALIZE E cls =
     (if cls = ''Detection'' then Some (deserialize_mask E)
      else if cls = ''Detections'' then Some (deserialize_detections E)
      else if cls = ''Segmentation'' then Some (deserialize_mask E)
      else if cls \<in> set object_prototype_names then Some (inherited_member cls)
      else None)"

text \<open>\<^verbatim>\<open>mapId\<close>: \<^verbatim>\<open>obj.id = obj._id; delete obj._id; return obj\<close>.\<close>

definition mapId :: "obj \<Rightarrow> obj" where
  "mapId obj = obj_delete (obj_set obj ''id'' (obj_get obj ''_id'')) ''_id''"

text \<open>
  \<^verbatim>\<open>mapId\<close> on any value. Reading a property of \<^verbatim>\<open>null\<close> or \<^verbatim>\<open>undefined\<close> throws, and
  so does, in a module (strict mode), writing a property on a string, a number or a
  boolean. An array and a typed array have no \<^verbatim>\<open>_id\<close>: they get an \<^verbatim>\<open>id\<close> that is
  \<^verbatim>\<open>undefined\<close>.
\<close>

fun mapId_val :: "json \<Rightarrow> error + json" where
  "mapId_val (JObj obj) = Inr (JObj (mapId obj))"
| "mapId_val (JArr i xs) = Inr (JArr True xs)"
| "mapId_val (JBin i b) = Inr (JBin True b)"
| "mapId_val v = Inl TypeError"

text \<open>
  Lines 58 to 67 of \<^verbatim>\<open>handleLabels\<close>, for a label object whose tag has the key \<open>cls\<close>:
  a kind of \<open>LABEL_LISTS\<close> has \<^verbatim>\<open>mapId\<close> mapped over its list field when that is an
  array, any other kind of \<open>LABELS\<close> has \<^verbatim>\<open>mapId\<close> applied to the label itself. The
  array that \<^verbatim>\<open>list.map(mapId)\<close> returns is a new one. (A member that the label only
  inherits is a function or a prototype object, never an array.)
\<close>

definition label_ids :: "env \<Rightarrow> string \<Rightarrow> obj \<Rightarrow> error + obj" where
  "label_ids E cls label =
     (if LABELS E cls then
        (case LABEL_LISTS E cls of
           Some k \<Rightarrow>
             (case obj_get label k of
                JArr i xs \<Rightarrow>
                  (case map_result mapId_val xs of
                     Inl e \<Rightarrow> Inl e
                   | Inr ys \<Rightarrow> Inr (obj_set label k (JArr False ys)))
              | _ \<Rightarrow> Inr label)
         | None \<Rightarrow> Inr (mapId label))
      else Inr label)"

text \<open>The index that a property key denotes in an array of the given elements.\<close>

definition array_index :: "json list \<Rightarrow> string \<Rightarrow> nat option" where
  "array_index xs k = find (\<lambda>n. dec_nat n = k) [0..<length xs]"

text \<open>
  The same lines for a truthy value that is no object: an array, a typed array, a
  string, a number or \<^verbatim>\<open>true\<close>. Such a value has no \<^verbatim>\<open>_cls\<close>, so the key of its tag is
  \<^verbatim>\<open>"undefined"\<close>, which \<open>DESERIALIZE\<close> neither has nor inherits. Should the tables of
  \<^verbatim>\<open>constants.ts\<close> know that key: the list field of a list-valued kind can be an array
  only where the label is an array and the field one of its elements (what a string,
  a number, a boolean or a typed array has under any key is no array, and
  \<^verbatim>\<open>Array.prototype\<close>, which an array has under \<^verbatim>\<open>__proto__\<close>, is an empty one, so that
  the assignment changes nothing that can be seen); and \<^verbatim>\<open>mapId\<close> is applied to the
  value for any other kind.
\<close>

definition untagged_ids :: "env \<Rightarrow> json \<Rightarrow> error + json" where
  "untagged_ids E label =
     (if LABELS E ''undefined'' then
        (case LABEL_LISTS E ''undefined'' of
           Some k \<Rightarrow>
             (case label of
                JArr i xs \<Rightarrow>
                  (case array_index xs k of
                     Some n \<Rightarrow>
                       (case xs ! n of
                          JArr j ys \<Rightarrow>
                            (case map_result mapId_val ys of
                               Inl e \<Rightarrow> Inl e
                             | Inr ys' \<Rightarrow> Inr (JArr i (xs[n := JArr False ys'])))
                        | _ \<Rightarrow> Inr label)
                   | None \<Rightarrow> Inr label)
              | _ \<Rightarrow> Inr label)
         | None \<Rightarrow> mapId_val label)
      else Inr label)"

text \<open>
  The body of the loop of \<^verbatim>\<open>handleLabels\<close> for one field value: a falsy value is
  skipped; otherwise the tag \<^verbatim>\<open>label._cls\<close> is made a property key and looked up in
  \<open>DESERIALIZE\<close>, then in \<open>LABELS\<close>.
\<close>

definition handleLabel :: "env \<Rightarrow> json \<Rightarrow> error + (buffer list \<times> json)" where
  "handleLabel E label =
     (if \<not> truthy label then Inr ([], label)
      else
        (case label of
           JObj l \<Rightarrow>
             (case prop_key (obj_get l ''_cls'') of
                Inl e \<Rightarrow> Inl e
              | Inr cls \<Rightarrow>
                  (case (case DESERIALIZE E cls of None \<Rightarrow> Inr ([], l) | Some f \<Rightarrow> f l) of
                     Inl e \<Rightarrow> Inl e
                   | Inr (bufs, l1) \<Rightarrow>
                       (case label_ids E cls l1 of
                          Inl e \<Rightarrow> Inl e
                        | Inr l2 \<Rightarrow> Inr (bufs, JObj l2))))
         | _ \<Rightarrow>
             (case untagged_ids E label of
                Inl e \<Rightarrow> Inl e
              | Inr label' \<Rightarrow> Inr ([], label'))))"

text \<open>\<^verbatim>\<open>handleLabels\<close>: the loop over the fields, collecting the new buffers in order.\<close>

fun handleLabels :: "env \<Rightarrow> obj \<Rightarrow> error + (buffer list \<times> obj)" where
  "handleLabels E [] = Inr ([], [])"
| "handleLabels E ((field, label) # rest) =
     (case handleLabel E label of
        Inl e \<Rightarrow> Inl e
      | Inr (bufs, label') \<Rightarrow>
          (case handleLabels E rest of
             Inl e \<Rightarrow> Inl e
           | Inr (bufs', rest') \<Rightarrow> Inr (bufs @ bufs', (field, label') # rest')))"

text \<open>
  \<^verbatim>\<open>handleLabels(frame)\<close> for a frame that is any value: the loop runs over the
  properties of an object, over the elements of an array (its \<^verbatim>\<open>id\<close>, if it has one,
  is \<^verbatim>\<open>undefined\<close> and skipped), over the characters of a string and the elements of a
  typed array, which the loop body cannot change, and not at all over \<^verbatim>\<open>null\<close>,
  \<^verbatim>\<open>undefined\<close>, a number or a boolean.
\<close>

fun handleLabels_val :: "env \<Rightarrow> json \<Rightarrow> error + (buffer list \<times> json)" where
  "handleLabels_val E (JObj frame) =
     (case handleLabels E frame of
        Inl e \<Rightarrow> Inl e
      | Inr (bufs, frame') \<Rightarrow> Inr (bufs, JObj frame'))"
| "handleLabels_val E (JArr i xs) =
     (case map_result (handleLabel E) xs of
        Inl e \<Rightarrow> Inl e
      | Inr rs \<Rightarrow> Inr (concat (map fst rs), JArr i (map snd rs)))"
| "handleLabels_val E (JStr s) =
     (case map_result (handleLabel E) (map (\<lambda>c. JStr [c]) s) of
        Inl e \<Rightarrow> Inl e
      | Inr rs \<Rightarrow> Inr ([], JStr s))"
| "handleLabels_val E (JBin i b) =
     (case map_result (handleLabel E) (map (\<lambda>n. JNum (int n)) b) of
        Inl e \<Rightarrow> Inl e
      | Inr rs \<Rightarrow> Inr ([], JBin i b))"
| "handleLabels_val E v = Inr ([], v)"

text \<open>
  The frames of a list of frames, as \<^verbatim>\<open>sample.frames.map((frame) =>
  handleLabels(frame)).flat()\<close> and the \<^verbatim>\<open>forEach\<close> of \<^verbatim>\<open>getSendChunk\<close> process them.
\<close>

definition handleFrames :: "env \<Rightarrow> json list \<Rightarrow> error + (buffer list \<times> json list)" where
  "handleFrames E frames =
     (case map_result (handleLabels_val E) frames of
        Inl e \<Rightarrow> Inl e
      | Inr rs \<Rightarrow> Inr (concat (map fst rs), map snd rs))"

text \<open>
  \<^verbatim>\<open>handleSample\<close>: the labels of the sample, then those of its frames when
  \<^verbatim>\<open>sample.frames && sample.frames.length\<close>, then \<^verbatim>\<open>mapId(sample)\<close>. Only an array has
  a \<^verbatim>\<open>map\<close> whose result has a \<^verbatim>\<open>flat\<close>.
\<close>

definition handleSample :: "env \<Rightarrow> obj \<Rightarrow> error + (buffer list \<times> obj)" where
  "handleSample E sample =
     (case handleLabels E sample of
        Inl e \<Rightarrow> Inl e
      | Inr (buffers, sample1) \<Rightarrow>
          (let frames = obj_get sample1 ''frames'' in
           if truthy frames \<and> truthy (length_of frames) then
             (case frames of
                JArr i xs \<Rightarrow>
                  (case handleFrames E xs of
                     Inl e \<Rightarrow> Inl e
                   | Inr (bufs, xs') \<Rightarrow>
                       Inr (buffers @ bufs, mapId (obj_set sample1 ''frames'' (JArr i xs'))))
              | _ \<Rightarrow> Inl TypeError)
           else Inr (buffers, mapId sample1)))"

section \<open>Predicates and examples for the normalizer\<close>

text \<open>Whether a value is an object literal, the only kind of value that has a tag.\<close>

fun is_obj :: "json \<Rightarrow> bool" where
  "is_obj (JObj kvs) = True"
| "is_obj v = False"

text \<open>
  Whether a value is primitive: \<^verbatim>\<open>undefined\<close>, \<^verbatim>\<open>null\<close>, a boolean, a number or a
  string. The normalizer cannot change such a value.
\<close>

definition is_primitive :: "json \<Rightarrow> bool" where
  "is_primitive v =
     (case v of JObj kvs \<Rightarrow> False | JArr i xs \<Rightarrow> False | JBin i b \<Rightarrow> False | _ \<Rightarrow> True)"

text \<open>
  \<open>y\<close> is \<open>x\<close> after the identifier rewrite: for objects, the \<^verbatim>\<open>id\<close> of \<open>y\<close> is the
  \<^verbatim>\<open>_id\<close> of \<open>x\<close>, and \<open>y\<close> has no \<^verbatim>\<open>_id\<close>; an array or a typed array, which has no
  \<^verbatim>\<open>_id\<close>, is the same with an \<^verbatim>\<open>id\<close> that is \<^verbatim>\<open>undefined\<close>. No other value can be
  rewritten.
\<close>

definition id_rewritten :: "json \<Rightarrow> json \<Rightarrow> bool" where
  "id_rewritten x y =
     (case x of
        JObj e \<Rightarrow>
          (case y of
             JObj e' \<Rightarrow> obj_get e' ''id'' = obj_get e ''_id'' \<and> map_of e' ''_id'' = None
           | _ \<Rightarrow> False)
      | JArr i xs \<Rightarrow> y = JArr True xs
      | JBin i b \<Rightarrow> y = JBin True b
      | _ \<Rightarrow> False)"

text \<open>Decoding a mask leaves a value's kind and its \<^verbatim>\<open>_id\<close> as they were.\<close>

definition ids_kept :: "json \<Rightarrow> json \<Rightarrow> bool" where
  "ids_kept x y =
     (case x of
        JObj e \<Rightarrow> (case y of JObj e' \<Rightarrow> obj_get e' ''_id'' = obj_get e ''_id'' | _ \<Rightarrow> False)
      | _ \<Rightarrow> x = y)"

text \<open>
  What \<^verbatim>\<open>mapId\<close> makes of a value that has no \<^verbatim>\<open>_id\<close>: the same value with an \<^verbatim>\<open>id\<close>
  that is \<^verbatim>\<open>undefined\<close>, in the place of the old \<^verbatim>\<open>id\<close> if there was one and as the
  last property otherwise.
\<close>

definition clear_id :: "json \<Rightarrow> json" where
  "clear_id v =
     (case v of
        JObj e \<Rightarrow> JObj (obj_set e ''id'' JUndef)
      | JArr i xs \<Rightarrow> JArr True xs
      | JBin i b \<Rightarrow> JBin True b
      | _ \<Rightarrow> v)"

text \<open>
  The test \<^verbatim>\<open>key in table\<close> for a table written as an object literal with the given
  keys, and the property key that a member of the given name which such a table only
  inherits stands for: \<^verbatim>\<open>Object.prototype\<close> itself under \<^verbatim>\<open>__proto__\<close>, and a built-in
  function otherwise, which prints as its source.
\<close>

definition in_table :: "string list \<Rightarrow> string \<Rightarrow> bool" where
  "in_table keys k = (k \<in> set keys \<or> k \<in> set object_prototype_names)"

definition inherited_key :: "string \<Rightarrow> string" where
  "inherited_key name =
     (if name = ''__proto__'' then ''[object Object]''
      else ''function '' @ name @ ''() { [native code] }'')"

text \<open>
  Modelled from the spec: the tables of \<^verbatim>\<open>constants.ts\<close> and the decoder of
  \<^verbatim>\<open>numpy.ts\<close>, which are not among the sources. This instance of the parameters
  serves the examples. The specification names a detections container as a
  list-valued label kind next to single labels, and \<^verbatim>\<open>DESERIALIZE.Detections\<close> in the
  worker reads the list of such a container from its \<^verbatim>\<open>detections\<close> field: here the
  tables are object literals, five label kinds are recognized, two of them
  list-valued; a chunk has two frames, as in the example of the specification; and the
  decoder yields the character codes.
\<close>

definition example_env :: env where
  "example_env =
     \<lparr>CHUNK_SIZE = 2,
      LABELS = in_table [''Classification'', ''Classifications'', ''Detection'',
                         ''Detections'', ''Segmentation''],
      LABEL_LISTS =
        (\<lambda>cls. case map_of [(''Classifications'', ''classifications''),
                             (''Detections'', ''detections'')] cls of
                  Some k \<Rightarrow> Some k
                | None \<Rightarrow>
                    if cls \<in> set object_prototype_names then Some (inherited_key cls)
                    else None),
      deserialize = (\<lambda>s. Some (map of_char s))\<rparr>"

text \<open>
  A sample with an identifier and one \<^verbatim>\<open>Detections\<close> container, before and after
  \<^verbatim>\<open>handleSample\<close>.
\<close>

definition example_detections :: obj where
  "example_detections =
     [(''_cls'', JStr ''Detections''), (''_id'', JStr ''c''),
      (''detections'', JArr False [JObj [(''_id'', JStr ''d'')]])]"

definition example_detections' :: obj where
  "example_detections' =
     [(''_cls'', JStr ''Detections''), (''_id'', JStr ''c''),
      (''detections'', JArr False [JObj [(''id'', JStr ''d'')]])]"

definition example_sample :: obj where
  "example_sample = [(''_id'', JStr ''x''), (''ground_truth'', JObj example_detections)]"

definition example_sample' :: obj where
  "example_sample' = [(''ground_truth'', JObj example_detections'), (''id'', JStr ''x'')]"

text \<open>
  A sample whose \<^verbatim>\<open>_id\<close> holds a label object instead of an identifier, before and
  after \<^verbatim>\<open>handleSample\<close>.
\<close>

definition example_label_id :: obj where
  "example_label_id =
     [(''_id'', JObj [(''_cls'', JStr ''Classification''), (''_id'', JStr ''w'')])]"

definition example_label_id' :: obj where
  "example_label_id' =
     [(''id'', JObj [(''_cls'', JStr ''Classification''), (''id'', JStr ''w'')])]"

text \<open>
  A label record with a list-valued container and a single label, before and after
  \<^verbatim>\<open>handleLabels\<close>.
\<close>

definition example_labels :: obj where
  "example_labels =
     [(''ground_truth'', JObj example_detections),
      (''weather'', JObj [(''_cls'', JStr ''Classification''), (''_id'', JStr ''w'')])]"

definition example_labels' :: obj where
  "example_labels' =
     [(''ground_truth'', JObj example_detections'),
      (''weather'', JObj [(''_cls'', JStr ''Classification''), (''id'', JStr ''w'')])]"

text \<open>
  The record with every \<^verbatim>\<open>id\<close> property, at any depth, left out: two records that agree
  after \<open>strip_ids\<close> differ in their \<^verbatim>\<open>id\<close> properties only.
\<close>

primrec strip_ids :: "json \<Rightarrow> json" where
  "strip_ids JUndef = JUndef"
| "strip_ids JNull = JNull"
| "strip_ids (JBool b) = JBool b"
| "strip_ids (JNum n) = JNum n"
| "strip_ids (JStr s) = JStr s"
| "strip_ids (JBin i b) = JBin False b"
| "strip_ids (JArr i xs) = JArr False (map strip_ids xs)"
| "strip_ids (JObj kvs) =
     JObj (filter (\<lambda>p. fst p \<noteq> ''id'') (map (map_prod id strip_ids) kvs))"

text \<open>No object, at any depth, has an \<^verbatim>\<open>_id\<close> property.\<close>

primrec no_internal_id :: "json \<Rightarrow> bool" where
  "no_internal_id JUndef = True"
| "no_internal_id JNull = True"
| "no_internal_id (JBool b) = True"
| "no_internal_id (JNum n) = True"
| "no_internal_id (JStr s) = True"
| "no_internal_id (JBin i b) = True"
| "no_internal_id (JArr i xs) = list_all (\<lambda>b. b) (map no_internal_id xs)"
| "no_internal_id (JObj kvs) =
     (list_all (\<lambda>p. fst p \<noteq> ''_id'' \<and> snd p) (map (map_prod id no_internal_id) kvs))"

text \<open>No object, at any depth, has a \<^verbatim>\<open>mask\<close> that is still text.\<close>

primrec no_encoded_mask :: "json \<Rightarrow> bool" where
  "no_encoded_mask JUndef = True"
| "no_encoded_mask JNull = True"
| "no_encoded_mask (JBool b) = True"
| "no_encoded_mask (JNum n) = True"
| "no_encoded_mask (JStr s) = True"
| "no_encoded_mask (JBin i b) = True"
| "no_encoded_mask (JArr i xs) = list_all (\<lambda>b. b) (map no_encoded_mask xs)"
| "no_encoded_mask (JObj kvs) =
     (list_all (\<lambda>p. snd p) (map (map_prod id no_encoded_mask) kvs) \<and>
      list_all (\<lambda>p. fst p = ''mask'' \<longrightarrow> (case snd p of JStr s \<Rightarrow> False | _ \<Rightarrow> True)) kvs)"

text \<open>A sample that was normalized before: it has an \<^verbatim>\<open>id\<close> and no \<^verbatim>\<open>_id\<close>.\<close>

definition example_normalized :: obj where
  "example_normalized = [(''id'', JStr ''x'')]"

text \<open>
  A sample without identifiers and without masks, before and after \<^verbatim>\<open>handleSample\<close>:
  a single label, a list-valued container that has an \<^verbatim>\<open>id\<close>, and a value that is no
  label.
\<close>

definition example_plain :: obj where
  "example_plain =
     [(''filepath'', JStr ''a.mp4''),
      (''weather'', JObj [(''_cls'', JStr ''Classification''), (''label'', JStr ''sunny'')]),
      (''objects'', JObj [(''_cls'', JStr ''Detections''), (''id'', JStr ''c''),
                         (''detections'', JArr False [JObj [(''label'', JStr ''cat'')]])]),
      (''metadata'', JObj [(''width'', JNum 640)])]"

definition example_plain' :: obj where
  "example_plain' =
     [(''filepath'', JStr ''a.mp4''),
      (''weather'', JObj [(''_cls'', JStr ''Classification''), (''label'', JStr ''sunny''),
                         (''id'', JUndef)]),
      (''objects'', JObj [(''_cls'', JStr ''Detections''), (''id'', JStr ''c''),
                         (''detections'',
                          JArr False [JObj [(''label'', JStr ''cat''), (''id'', JUndef)]])]),
      (''metadata'', JObj [(''width'', JNum 640)]),
      (''id'', JUndef)]"

text \<open>
  What lines 58 to 67 are to make of a label object that has no \<^verbatim>\<open>_id\<close> at any depth
  and whose tag has the key \<open>cls\<close>: for a kind of \<open>LABELS\<close> that is not list-valued the
  \<^verbatim>\<open>id\<close> of the label is set to \<^verbatim>\<open>undefined\<close>; for a list-valued kind whose list field
  holds an array, the \<^verbatim>\<open>id\<close> of each element of the list is, and the label itself is
  otherwise as it was; any other label is left alone.
\<close>

definition label_without_id :: "env \<Rightarrow> string \<Rightarrow> obj \<Rightarrow> obj" where
  "label_without_id E cls l =
     (if LABELS E cls then
        (case LABEL_LISTS E cls of
           None \<Rightarrow> obj_set l ''id'' JUndef
         | Some k \<Rightarrow>
             (case obj_get l k of
                JArr i xs \<Rightarrow> obj_set l k (JArr False (map clear_id xs))
              | _ \<Rightarrow> l))
      else l)"

section \<open>The chunked frame source\<close>

text \<open>
  \<^verbatim>\<open>createReader\<close> wraps a \<^verbatim>\<open>ReadableStream\<close> around a \<^verbatim>\<open>pull\<close> callback that fetches
  one chunk of frames. The stream itself is the platform's; its part of the behaviour
  is modelled after the algorithms of the Streams Standard for a default controller
  with a \<^verbatim>\<open>CountQueuingStrategy\<close> (\<^verbatim>\<open>ReadableStreamDefaultControllerCallPullIfNeeded\<close>,
  \<^verbatim>\<open>ShouldCallPull\<close>, \<^verbatim>\<open>Enqueue\<close>, \<^verbatim>\<open>Close\<close>, \<^verbatim>\<open>Error\<close>, and the pull steps of a
  read). Promise reactions run before the next message or network event, so each event
  is one atomic step of the model.
\<close>

definition HIGH_WATER_MARK :: nat where
  "HIGH_WATER_MARK = 6"

record FrameChunk =
  frames :: "json list"
  range :: "int \<times> int"

text \<open>The query parameters of one \<^verbatim>\<open>fetch\<close> of the \<^verbatim>\<open>/frames\<close> route.\<close>

record request =
  req_url :: string
  req_frameNumber :: int
  req_numFrames :: int
  req_frameCount :: int
  req_sampleId :: string
  req_source :: bool

datatype stream_state = Readable | Closed | Errored

text \<open>
  What a stream does to the outside: it issues a fetch; it settles a \<^verbatim>\<open>read()\<close> whose
  continuation is \<^verbatim>\<open>getSendChunk(uuid)\<close>, with a chunk or with \<^verbatim>\<open>done\<close> (\<open>None\<close>); or
  it rejects such a read.
\<close>

datatype effect =
    Fetch request
  | ReadResult string "FrameChunk option"
  | ReadRejected string

text \<open>
  One reader: the variables the closures of \<^verbatim>\<open>createReader\<close> share (\<open>frameNumber\<close> is
  the cursor), the slots of the stream and of its controller, the pending reads (each
  by the session id its continuation captured), and the fetches issued and not yet
  answered.
\<close>

record frame_stream =
  chunkSize :: int
  frameCount :: int
  frameNumber :: int
  sampleId :: string
  source :: bool
  url :: string
  cancelled :: bool
  started :: bool
  pulling :: bool
  pullAgain :: bool
  closeRequested :: bool
  state :: stream_state
  queue :: "FrameChunk list"
  readRequests :: "string list"
  inflight :: "request list"

text \<open>\<^verbatim>\<open>createReader\<close>: nothing runs yet; the stream starts in a later microtask.\<close>

definition createReader :: "int \<Rightarrow> int \<Rightarrow> int \<Rightarrow> string \<Rightarrow> bool \<Rightarrow> string \<Rightarrow> frame_stream" where
  "createReader chunkSize' frameCount' frameNumber' sampleId' source' url' =
     \<lparr>chunkSize = chunkSize', frameCount = frameCount', frameNumber = frameNumber',
      sampleId = sampleId', source = source', url = url',
      cancelled = False, started = False, pulling = False, pullAgain = False,
      closeRequested = False, state = Readable, queue = [], readRequests = [],
      inflight = []\<rparr>"

text \<open>\<^verbatim>\<open>ReadableStreamDefaultControllerCanCloseOrEnqueue\<close>.\<close>

definition can_close_or_enqueue :: "frame_stream \<Rightarrow> bool" where
  "can_close_or_enqueue s = (\<not> closeRequested s \<and> state s = Readable)"

text \<open>
  \<^verbatim>\<open>ReadableStreamDefaultControllerShouldCallPull\<close>: the stream is locked by its reader
  from the start; the desired size is the high water mark less the number of queued
  chunks.
\<close>

definition should_call_pull :: "frame_stream \<Rightarrow> bool" where
  "should_call_pull s =
     (can_close_or_enqueue s \<and> started s \<and>
      (readRequests s \<noteq> [] \<or> length (queue s) < HIGH_WATER_MARK))"

text \<open>\<^verbatim>\<open>ReadableStreamClose\<close>: every pending read is settled with \<^verbatim>\<open>done\<close>.\<close>

definition stream_close :: "frame_stream \<Rightarrow> frame_stream \<times> effect list" where
  "stream_close s =
     (s\<lparr>state := Closed, readRequests := []\<rparr>, map (\<lambda>u. ReadResult u None) (readRequests s))"

text \<open>\<^verbatim>\<open>ReadableStreamDefaultControllerClose\<close>, once the method has checked that it can close.\<close>

definition controller_close :: "frame_stream \<Rightarrow> frame_stream \<times> effect list" where
  "controller_close s =
     (let s1 = s\<lparr>closeRequested := True\<rparr>
      in if queue s1 = [] then stream_close s1 else (s1, []))"

text \<open>
  \<^verbatim>\<open>ReadableStreamDefaultControllerError\<close>: the queue is dropped and every pending read
  is rejected.
\<close>

definition controller_error :: "frame_stream \<Rightarrow> frame_stream \<times> effect list" where
  "controller_error s =
     (if state s \<noteq> Readable then (s, [])
      else (s\<lparr>queue := [], state := Errored, readRequests := []\<rparr>,
            map ReadRejected (readRequests s)))"

text \<open>The request that the \<^verbatim>\<open>pull\<close> callback builds from the variables of its closure.\<close>

definition next_request :: "frame_stream \<Rightarrow> request" where
  "next_request s =
     \<lparr>req_url = url s, req_frameNumber = frameNumber s, req_numFrames = chunkSize s,
      req_frameCount = frameCount s, req_sampleId = sampleId s, req_source = source s\<rparr>"

text \<open>
  The \<^verbatim>\<open>pull\<close> callback (lines 144 to 171), called by the controller with \<open>pulling\<close>
  set. Past the last frame, or once cancelled, it closes the stream and returns a
  resolved promise: the controller then clears \<open>pulling\<close>, and a closed controller is
  not pulled again. (Were the stream not closable, \<^verbatim>\<open>controller.close()\<close> would throw
  and the rejected promise would put the stream in error.) Otherwise it issues one
  fetch and returns a promise that is pending until the response.
\<close>

definition pull :: "frame_stream \<Rightarrow> frame_stream \<times> effect list" where
  "pull s =
     (if frameNumber s \<ge> frameCount s \<or> cancelled s then
        (if can_close_or_enqueue s then
           (let (s1, effects) = controller_close s
            in (s1\<lparr>pulling := False, pullAgain := False\<rparr>, effects))
         else controller_error s)
      else (s\<lparr>inflight := inflight s @ [next_request s]\<rparr>, [Fetch (next_request s)]))"

text \<open>\<^verbatim>\<open>ReadableStreamDefaultControllerCallPullIfNeeded\<close>.\<close>

definition call_pull_if_needed :: "frame_stream \<Rightarrow> frame_stream \<times> effect list" where
  "call_pull_if_needed s =
     (if \<not> should_call_pull s then (s, [])
      else if pulling s then (s\<lparr>pullAgain := True\<rparr>, [])
      else pull (s\<lparr>pulling := True\<rparr>))"

text \<open>The reaction to a fulfilled pull promise.\<close>

definition pull_fulfilled :: "frame_stream \<Rightarrow> frame_stream \<times> effect list" where
  "pull_fulfilled s =
     (let s1 = s\<lparr>pulling := False\<rparr>
      in if pullAgain s1 then call_pull_if_needed (s1\<lparr>pullAgain := False\<rparr>) else (s1, []))"

text \<open>
  \<^verbatim>\<open>ReadableStreamDefaultControllerEnqueue\<close>: the chunk goes to the oldest pending read,
  or to the queue when no read is pending.
\<close>

definition controller_enqueue :: "frame_stream \<Rightarrow> FrameChunk \<Rightarrow> frame_stream \<times> effect list" where
  "controller_enqueue s chunk =
     (case readRequests s of
        uuid # rest \<Rightarrow>
          (let (s1, effects) = call_pull_if_needed (s\<lparr>readRequests := rest\<rparr>)
           in (s1, ReadResult uuid (Some chunk) # effects))
      | [] \<Rightarrow> call_pull_if_needed (s\<lparr>queue := queue s @ [chunk]\<rparr>))"

text \<open>
  The response of the oldest fetch arrives (lines 162 to 166):
  \<^verbatim>\<open>controller.enqueue({ frames, range }); frameNumber = range[1] + 1; resolve()\<close>.
  An \<^verbatim>\<open>enqueue\<close> on a stream that cannot take it throws, which line 167 turns into a
  rejection of the pull promise.
\<close>

definition fetch_response :: "frame_stream \<Rightarrow> FrameChunk \<Rightarrow> frame_stream \<times> effect list" where
  "fetch_response s chunk =
     (case inflight s of
        [] \<Rightarrow> (s, [])
      | req # rest \<Rightarrow>
          (let s0 = s\<lparr>inflight := rest\<rparr>
           in if \<not> can_close_or_enqueue s0 then controller_error s0
              else
                (let (s1, effects1) = controller_enqueue s0 chunk;
                     s2 = s1\<lparr>frameNumber := snd (range chunk) + 1\<rparr>;
                     (s3, effects3) = pull_fulfilled s2
                 in (s3, effects1 @ effects3))))"

text \<open>The oldest fetch fails (lines 167 to 169): the pull promise is rejected.\<close>

definition fetch_failure :: "frame_stream \<Rightarrow> frame_stream \<times> effect list" where
  "fetch_failure s =
     (case inflight s of
        [] \<Rightarrow> (s, [])
      | req # rest \<Rightarrow> controller_error (s\<lparr>inflight := rest\<rparr>))"

text \<open>
  \<^verbatim>\<open>stream.reader.read().then(getSendChunk(uuid))\<close>: a closed stream answers \<^verbatim>\<open>done\<close>, a
  stream in error rejects, and a readable one runs the pull steps of its controller.
\<close>

definition reader_read :: "frame_stream \<Rightarrow> string \<Rightarrow> frame_stream \<times> effect list" where
  "reader_read s uuid =
     (case state s of
        Closed \<Rightarrow> (s, [ReadResult uuid None])
      | Errored \<Rightarrow> (s, [ReadRejected uuid])
      | Readable \<Rightarrow>
          (case queue s of
             chunk # rest \<Rightarrow>
               (let s1 = s\<lparr>queue := rest\<rparr>;
                    (s2, effects) =
                      (if closeRequested s1 \<and> rest = [] then stream_close s1
                       else call_pull_if_needed s1)
                in (s2, effects @ [ReadResult uuid (Some chunk)]))
           | [] \<Rightarrow> call_pull_if_needed (s\<lparr>readRequests := readRequests s @ [uuid]\<rparr>)))"

text \<open>The start promise of the stream is fulfilled, once.\<close>

definition stream_start :: "frame_stream \<Rightarrow> frame_stream \<times> effect list" where
  "stream_start s =
     (if started s then (s, []) else call_pull_if_needed (s\<lparr>started := True\<rparr>))"

text \<open>The \<^verbatim>\<open>cancel\<close> of the object \<^verbatim>\<open>createReader\<close> returns: \<^verbatim>\<open>() => (cancelled = true)\<close>.\<close>

definition stream_cancel :: "frame_stream \<Rightarrow> frame_stream" where
  "stream_cancel s = s\<lparr>cancelled := True\<rparr>"

text \<open>What can happen to a reader, and a run of such events from a state.\<close>

datatype stream_event = Start | Read string | Response FrameChunk | Failure | Cancel

fun stream_step :: "frame_stream \<Rightarrow> stream_event \<Rightarrow> frame_stream \<times> effect list" where
  "stream_step s Start = stream_start s"
| "stream_step s (Read uuid) = reader_read s uuid"
| "stream_step s (Response chunk) = fetch_response s chunk"
| "stream_step s Failure = fetch_failure s"
| "stream_step s Cancel = (stream_cancel s, [])"

fun stream_run :: "frame_stream \<Rightarrow> stream_event list \<Rightarrow> frame_stream \<times> effect list" where
  "stream_run s [] = (s, [])"
| "stream_run s (ev # evs) =
     (let (s1, effects1) = stream_step s ev;
          (s2, effects2) = stream_run s1 evs
      in (s2, effects1 @ effects2))"

section \<open>Observations on the effects of a reader\<close>

text \<open>The fetches among the effects of a reader, in order.\<close>

fun fetches :: "effect list \<Rightarrow> request list" where
  "fetches [] = []"
| "fetches (Fetch req # effects) = req # fetches effects"
| "fetches (ReadResult uuid value # effects) = fetches effects"
| "fetches (ReadRejected uuid # effects) = fetches effects"

text \<open>The chunks that reads were answered with, in order.\<close>

fun delivered :: "effect list \<Rightarrow> FrameChunk list" where
  "delivered [] = []"
| "delivered (ReadResult uuid (Some chunk) # effects) = chunk # delivered effects"
| "delivered (ReadResult uuid None # effects) = delivered effects"
| "delivered (Fetch req # effects) = delivered effects"
| "delivered (ReadRejected uuid # effects) = delivered effects"

text \<open>The number of reads among the events of a run.\<close>

fun reads :: "stream_event list \<Rightarrow> nat" where
  "reads [] = 0"
| "reads (Read uuid # evs) = Suc (reads evs)"
| "reads (ev # evs) = reads evs"

text \<open>
  What holds of a reader in every state it reaches: at most one fetch is pending, the
  queue and the pending fetch together stay within the high water mark, a fetch is
  pending only while the controller is pulling and the stream can take a chunk, and
  reads wait only while the queue is empty.
\<close>

definition stream_inv :: "frame_stream \<Rightarrow> bool" where
  "stream_inv s =
     (length (inflight s) \<le> 1 \<and>
      length (queue s) + length (inflight s) \<le> HIGH_WATER_MARK \<and>
      (inflight s = [] \<or> pulling s \<and> can_close_or_enqueue s) \<and>
      (readRequests s = [] \<or> queue s = []))"

text \<open>
  The same with the history of the run: \<open>F\<close> fetches issued, \<open>D\<close> chunks handed to
  reads and \<open>R\<close> reads made so far.
\<close>

definition counted_inv :: "frame_stream \<Rightarrow> nat \<Rightarrow> nat \<Rightarrow> nat \<Rightarrow> bool" where
  "counted_inv s F D R =
     (stream_inv s \<and>
      D + length (readRequests s) \<le> R \<and>
      F \<le> R + HIGH_WATER_MARK \<and>
      (state s \<noteq> Readable \<or> F = D + length (queue s) + length (inflight s)))"

text \<open>
  A stream whose close was requested and that has nothing left to do but hand out the
  chunks it has buffered: no fetch is pending, no read waits, and it is closed once
  the queue is empty.
\<close>

definition closing :: "frame_stream \<Rightarrow> bool" where
  "closing s =
     (closeRequested s \<and> inflight s = [] \<and>
      (state s = Readable \<and> queue s \<noteq> [] \<and> readRequests s = [] \<or>
       state s = Closed \<and> queue s = []))"

text \<open>
  \<open>chain n rs m\<close>: the ranges \<open>rs\<close>, in this order, are non-empty, each starts where
  the one before ended, the first starts at \<open>n\<close> and the last ends at \<open>m - 1\<close>. So
  \<open>chain 0 rs F\<close> says that \<open>rs\<close> partitions the frames \<open>0\<close> to \<open>F - 1\<close> into
  contiguous, non-overlapping, increasing ranges.
\<close>

fun chain :: "int \<Rightarrow> (int \<times> int) list \<Rightarrow> int \<Rightarrow> bool" where
  "chain n [] m = (n = m)"
| "chain n ((a, b) # rs) m = (a = n \<and> a \<le> b \<and> chain (b + 1) rs m)"

text \<open>Where a chain from \<open>n\<close> ends, if the ranges form one.\<close>

fun chain_end :: "int \<Rightarrow> (int \<times> int) list \<Rightarrow> int option" where
  "chain_end n [] = Some n"
| "chain_end n ((a, b) # rs) = (if a = n \<and> a \<le> b then chain_end (b + 1) rs else None)"

text \<open>
  The response the claim assumes for a request: the frames from the cursor on, a chunk
  size of them or as many as are left.
\<close>

definition honest :: "request \<Rightarrow> FrameChunk \<Rightarrow> bool" where
  "honest req chunk =
     (range chunk =
        (req_frameNumber req,
         min (req_frameNumber req + req_numFrames req - 1) (req_frameCount req - 1)))"

text \<open>
  An event of an undisturbed run: a response answers the pending fetch as assumed, and
  no fetch fails.
\<close>

fun honest_event :: "frame_stream \<Rightarrow> stream_event \<Rightarrow> bool" where
  "honest_event s (Response chunk) =
     (case inflight s of [] \<Rightarrow> False | req # rest \<Rightarrow> honest req chunk)"
| "honest_event s Failure = False"
| "honest_event s ev = True"

fun honest_run :: "frame_stream \<Rightarrow> stream_event list \<Rightarrow> bool" where
  "honest_run s [] = True"
| "honest_run s (ev # evs) = (honest_event s ev \<and> honest_run (fst (stream_step s ev)) evs)"

text \<open>Whether some read was answered with \<^verbatim>\<open>done\<close>.\<close>

fun done_delivered :: "effect list \<Rightarrow> bool" where
  "done_delivered [] = False"
| "done_delivered (ReadResult uuid None # effects) = True"
| "done_delivered (ReadResult uuid (Some chunk) # effects) = done_delivered effects"
| "done_delivered (Fetch req # effects) = done_delivered effects"
| "done_delivered (ReadRejected uuid # effects) = done_delivered effects"

text \<open>
  What holds in every state of an undisturbed run over \<open>F\<close> frames, given the ranges
  \<open>dr\<close> delivered so far and whether a read was answered with \<^verbatim>\<open>done\<close>: the delivered ranges and the
  queued ones form a chain from frame \<open>0\<close> to the cursor; a pending fetch asks for the
  frames at the cursor; the stream is closing only past the last frame or when
  cancelled; and \<^verbatim>\<open>done\<close> is answered by a closed stream only.
\<close>

definition ordered_inv :: "int \<Rightarrow> frame_stream \<Rightarrow> (int \<times> int) list \<Rightarrow> bool \<Rightarrow> bool" where
  "ordered_inv F s dr dn =
     (stream_inv s \<and> 0 < chunkSize s \<and> frameCount s = F \<and>
      chain_end 0 (dr @ map range (queue s)) = Some (frameNumber s) \<and>
      frameNumber s \<le> frameCount s \<and>
      (inflight s = [] \<or> inflight s = [next_request s] \<and> frameNumber s < frameCount s) \<and>
      (\<not> closeRequested s \<or> frameCount s \<le> frameNumber s \<or> cancelled s) \<and>
      (state s = Readable \<or> state s = Closed \<and> closeRequested s \<and> queue s = []) \<and>
      (\<not> dn \<or> state s = Closed))"

text \<open>
  The run of a consumer that reads one chunk at a time, from cursor \<open>n\<close> on: each
  response, as the claim assumes it, is followed by the next read.
\<close>

function sequential_events :: "int \<Rightarrow> int \<Rightarrow> int \<Rightarrow> string \<Rightarrow> stream_event list" where
  "sequential_events C F n uuid =
     (if 0 < C \<and> n < F then
        Response \<lparr>frames = [], range = (n, min (n + C - 1) (F - 1))\<rparr> # Read uuid #
        sequential_events C F (min (n + C - 1) (F - 1) + 1) uuid
      else [])"
  by pat_completeness auto

termination
  by (relation "measure (\<lambda>(C, F, n, uuid). nat (F - n))") auto

text \<open>A reader that waits, with one pending read, for the response of its fetch at \<open>n\<close>.\<close>

definition awaiting :: "int \<Rightarrow> int \<Rightarrow> int \<Rightarrow> string \<Rightarrow> frame_stream \<Rightarrow> bool" where
  "awaiting C F n uuid s =
     (state s = Readable \<and> started s \<and> pulling s \<and> \<not> closeRequested s \<and>
      \<not> cancelled s \<and> queue s = [] \<and> readRequests s = [uuid] \<and>
      inflight s = [next_request s] \<and> frameNumber s = n \<and> frameCount s = F \<and>
      chunkSize s = C)"

declare sequential_events.simps [simp del]

section \<open>The worker session\<close>

text \<open>
  The globals \<^verbatim>\<open>stream\<close> and \<^verbatim>\<open>streamId\<close>. A reader that \<^verbatim>\<open>setStream\<close> replaces stays
  alive in the closures of its pending fetch and reads, so the state keeps every reader
  ever created, in order of creation, and \<^verbatim>\<open>stream\<close> is an index into them.
\<close>

record worker =
  stream :: "nat option"
  streamId :: "string option"
  streams :: "frame_stream list"

definition initial_worker :: worker where
  "initial_worker = \<lparr>stream = None, streamId = None, streams = []\<rparr>"

text \<open>
  An inbound message: the \<^verbatim>\<open>method\<close> tag and the arguments of the four interfaces
  \<^verbatim>\<open>ProcessSample\<close>, \<^verbatim>\<open>RequestFrameChunk\<close>, \<^verbatim>\<open>SetStream\<close> and \<^verbatim>\<open>RequestSourceSample\<close>; a
  method reads the arguments its interface names.
\<close>

record message =
  msg_method :: string
  msg_uuid :: string
  msg_sample :: obj
  msg_sampleId :: string
  msg_source :: bool
  msg_frameNumber :: int
  msg_frameCount :: int
  msg_url :: string

text \<open>The three messages the worker posts, each with its list of transferred buffers.\<close>

datatype posted =
    ProcessSampleOut obj string "buffer list"
  | FrameChunkOut "json list" "int \<times> int" string "buffer list"
  | SourceSampleOut obj string "buffer list"

text \<open>
  What the worker does to the outside: \<^verbatim>\<open>postMessage\<close>, a fetch of frames on behalf of
  a reader, and the fetch of one sample (url, sample id, and the \<^verbatim>\<open>uuid\<close> its
  continuation captured).
\<close>

datatype outbound =
    Post posted
  | FetchFrames nat request
  | FetchSample string string string

text \<open>
  An exception that leaves \<^verbatim>\<open>onmessage\<close>: \<^verbatim>\<open>new Error("unknown method")\<close>, or one
  thrown while a sample was normalized.
\<close>

datatype failure = Error string | Uncaught error

text \<open>\<^verbatim>\<open>processSample\<close>.\<close>

definition processSample :: "env \<Rightarrow> message \<Rightarrow> failure + outbound list" where
  "processSample E m =
     (case handleSample E (msg_sample m) of
        Inl e \<Rightarrow> Inl (Uncaught e)
      | Inr (buffers, sample') \<Rightarrow> Inr [Post (ProcessSampleOut sample' (msg_uuid m) buffers)])"

text \<open>
  \<^verbatim>\<open>getSendChunk(uuid)\<close>, the continuation of a read: it posts the chunk when there is
  one, under the \<^verbatim>\<open>uuid\<close> it was created with. It runs as a promise reaction, so an
  exception of \<^verbatim>\<open>handleLabels\<close> only means that nothing is posted.
\<close>

definition getSendChunk :: "env \<Rightarrow> string \<Rightarrow> FrameChunk option \<Rightarrow> outbound list" where
  "getSendChunk E uuid value =
     (case value of
        None \<Rightarrow> []
      | Some chunk \<Rightarrow>
          (case handleFrames E (frames chunk) of
             Inl e \<Rightarrow> []
           | Inr (buffers, frames') \<Rightarrow>
               [Post (FrameChunkOut frames' (range chunk) uuid buffers)]))"

text \<open>The effects of reader \<open>i\<close>, as the worker shows them.\<close>

fun deliver :: "env \<Rightarrow> nat \<Rightarrow> effect \<Rightarrow> outbound list" where
  "deliver E i (Fetch req) = [FetchFrames i req]"
| "deliver E i (ReadResult uuid value) = getSendChunk E uuid value"
| "deliver E i (ReadRejected uuid) = []"

definition deliver_all :: "env \<Rightarrow> nat \<Rightarrow> effect list \<Rightarrow> outbound list" where
  "deliver_all E i effects = concat (map (deliver E i) effects)"

text \<open>One event of reader \<open>i\<close> inside the worker.\<close>

definition on_stream :: "env \<Rightarrow> worker \<Rightarrow> nat \<Rightarrow> stream_event \<Rightarrow> worker \<times> outbound list" where
  "on_stream E w i ev =
     (if i < length (streams w) then
        (let (s, effects) = stream_step (streams w ! i) ev
         in (w\<lparr>streams := (streams w)[i := s]\<rparr>, deliver_all E i effects))
      else (w, []))"

text \<open>\<^verbatim>\<open>requestFrameChunk\<close>: \<^verbatim>\<open>if (uuid === streamId) { stream && stream.reader.read()... }\<close>.\<close>

definition requestFrameChunk :: "env \<Rightarrow> worker \<Rightarrow> message \<Rightarrow> worker \<times> outbound list" where
  "requestFrameChunk E w m =
     (if Some (msg_uuid m) = streamId w then
        (case stream w of
           None \<Rightarrow> (w, [])
         | Some i \<Rightarrow> on_stream E w i (Read (msg_uuid m)))
      else (w, []))"

text \<open>
  \<^verbatim>\<open>setStream\<close>: the current reader is flagged cancelled, a new one is created with
  \<open>CHUNK_SIZE\<close> and read once; the start of the new stream follows as a microtask.
\<close>

definition setStream :: "env \<Rightarrow> worker \<Rightarrow> message \<Rightarrow> worker \<times> outbound list" where
  "setStream E w m =
     (let w1 = (case stream w of
                  None \<Rightarrow> w
                | Some i \<Rightarrow> fst (on_stream E w i Cancel));
          n = length (streams w1);
          w2 = w1\<lparr>streamId := Some (msg_uuid m),
                  stream := Some n,
                  streams := streams w1 @
                    [createReader (CHUNK_SIZE E) (msg_frameCount m) (msg_frameNumber m)
                       (msg_sampleId m) (msg_source m) (msg_url m)]\<rparr>;
          (w3, out3) = on_stream E w2 n (Read (msg_uuid m));
          (w4, out4) = on_stream E w3 n Start
      in (w4, out3 @ out4))"

text \<open>\<^verbatim>\<open>requestSourceSample\<close>, and the continuation of its fetch.\<close>

definition requestSourceSample :: "message \<Rightarrow> outbound list" where
  "requestSourceSample m = [FetchSample (msg_url m) (msg_sampleId m) (msg_uuid m)]"

definition sourceSample :: "env \<Rightarrow> string \<Rightarrow> obj \<Rightarrow> outbound list" where
  "sourceSample E uuid sample =
     (case handleSample E sample of
        Inl e \<Rightarrow> []
      | Inr (buffers, sample') \<Rightarrow> [Post (SourceSampleOut sample' uuid buffers)])"

text \<open>\<^verbatim>\<open>onmessage\<close>: the switch over the method tag.\<close>

definition onmessage :: "env \<Rightarrow> worker \<Rightarrow> message \<Rightarrow> failure + (worker \<times> outbound list)" where
  "onmessage E w m =
     (if msg_method m = ''processSample'' then
        (case processSample E m of Inl e \<Rightarrow> Inl e | Inr out \<Rightarrow> Inr (w, out))
      else if msg_method m = ''requestFrameChunk'' then Inr (requestFrameChunk E w m)
      else if msg_method m = ''setStream'' then Inr (setStream E w m)
      else if msg_method m = ''requestSourceSample'' then Inr (w, requestSourceSample m)
      else Inl (Error ''unknown method''))"

text \<open>
  Everything that can happen to the worker: a message from the host, the response or
  the failure of the fetch of reader \<open>i\<close>, and the response of a sample fetch. An
  exception of \<^verbatim>\<open>onmessage\<close> leaves the state as it was.
\<close>

datatype event =
    Message message
  | FrameResponse nat FrameChunk
  | FrameFailure nat
  | SampleResponse string obj

fun worker_step :: "env \<Rightarrow> worker \<Rightarrow> event \<Rightarrow> worker \<times> outbound list" where
  "worker_step E w (Message m) =
     (case onmessage E w m of Inl e \<Rightarrow> (w, []) | Inr r \<Rightarrow> r)"
| "worker_step E w (FrameResponse i chunk) = on_stream E w i (Response chunk)"
| "worker_step E w (FrameFailure i) = on_stream E w i Failure"
| "worker_step E w (SampleResponse uuid sample) = (w, sourceSample E uuid sample)"

fun worker_run :: "env \<Rightarrow> worker \<Rightarrow> event list \<Rightarrow> worker \<times> outbound list" where
  "worker_run E w [] = (w, [])"
| "worker_run E w (ev # evs) =
     (let (w1, out1) = worker_step E w ev;
          (w2, out2) = worker_run E w1 evs
      in (w2, out1 @ out2))"

text \<open>
  What holds of the worker in every state it reaches: \<^verbatim>\<open>stream\<close> is one of the readers
  created so far, the reads that wait on it were issued under the current
  \<^verbatim>\<open>streamId\<close>, and every reader satisfies the invariant of a stream.
\<close>

definition worker_inv :: "worker \<Rightarrow> bool" where
  "worker_inv w =
     ((case stream w of
         None \<Rightarrow> True
       | Some i \<Rightarrow>
           i < length (streams w) \<and>
           list_all (\<lambda>u. streamId w = Some u) (readRequests (streams w ! i))) \<and>
      list_all stream_inv (streams w))"

text \<open>The network events of reader \<open>i\<close>: the response and the failure of its fetch.\<close>

fun concerns :: "nat \<Rightarrow> event \<Rightarrow> bool" where
  "concerns i (FrameResponse j chunk) = (j = i)"
| "concerns i (FrameFailure j) = (j = i)"
| "concerns i ev = False"

text \<open>
  Reader \<open>i\<close> exists and is not the current one any more: a later \<^verbatim>\<open>setStream\<close> has
  replaced it.
\<close>

definition superseded :: "worker \<Rightarrow> nat \<Rightarrow> bool" where
  "superseded w i =
     (i < length (streams w) \<and> (case stream w of None \<Rightarrow> False | Some j \<Rightarrow> i < j))"

section \<open>Examples for the stream and the worker\<close>

text \<open>
  A message with a given method and session id, for a video of five frames, and a
  chunk without frames that covers a given range.
\<close>

definition example_message :: "string \<Rightarrow> string \<Rightarrow> message" where
  "example_message method uuid =
     \<lparr>msg_method = method, msg_uuid = uuid, msg_sample = [], msg_sampleId = ''s'',
      msg_source = False, msg_frameNumber = 0, msg_frameCount = 5, msg_url = ''u''\<rparr>"

definition example_chunk :: "int \<Rightarrow> int \<Rightarrow> FrameChunk" where
  "example_chunk a b = \<lparr>frames = [], range = (a, b)\<rparr>"

text \<open>The fetch of the example stream at a given cursor, and the stream itself.\<close>

definition example_request :: "int \<Rightarrow> request" where
  "example_request n =
     \<lparr>req_url = ''u'', req_frameNumber = n, req_numFrames = 2, req_frameCount = 5,
      req_sampleId = ''s'', req_source = False\<rparr>"

definition example_stream :: frame_stream where
  "example_stream = createReader 2 5 0 ''s'' False ''u''"

text \<open>
  The example stream after it has started, two responses have arrived and none of
  them was read: two chunks are buffered. In \<open>example_cancelled\<close> the source was
  cancelled before the second response, so that the pull that followed it has
  requested the close of the stream.
\<close>

definition example_prefetched :: frame_stream where
  "example_prefetched =
     example_stream\<lparr>frameNumber := 4, started := True,
       queue := [example_chunk 0 1, example_chunk 2 3]\<rparr>"

definition example_cancelled :: frame_stream where
  "example_cancelled =
     example_stream\<lparr>frameNumber := 4, cancelled := True, started := True,
       closeRequested := True, queue := [example_chunk 0 1, example_chunk 2 3]\<rparr>"

text \<open>The worker after a stream was started and then superseded.\<close>

definition example_superseded :: worker where
  "example_superseded =
     \<lparr>stream = Some 1, streamId = Some ''B'',
      streams =
        [example_stream\<lparr>cancelled := True, started := True, pulling := True,
           readRequests := [''A''], inflight := [example_request 0]\<rparr>,
         example_stream\<lparr>started := True, pulling := True,
           readRequests := [''B''], inflight := [example_request 0]\<rparr>]\<rparr>"

text \<open>
  The worker after a stream was started and three responses arrived: the cursor has
  reached the frame count and two chunks wait in the queue. Then after one more request.
\<close>

definition example_buffered :: worker where
  "example_buffered =
     \<lparr>stream = Some 0, streamId = Some ''A'',
      streams =
        [example_stream\<lparr>frameNumber := 5, started := True, closeRequested := True,
           queue := [example_chunk 2 3, example_chunk 4 4]\<rparr>]\<rparr>"

definition example_buffered' :: worker where
  "example_buffered' =
     \<lparr>stream = Some 0, streamId = Some ''A'',
      streams =
        [example_stream\<lparr>frameNumber := 5, started := True, closeRequested := True,
           queue := [example_chunk 4 4]\<rparr>]\<rparr>"

text \<open>The worker whose stream has delivered everything and is closed.\<close>

definition example_drained :: worker where
  "example_drained =
     \<lparr>stream = Some 0, streamId = Some ''A'',
      streams =
        [example_stream\<lparr>frameNumber := 5, started := True, closeRequested := True,
           state := Closed\<rparr>]\<rparr>"

text \<open>
  The run of the example: the consumer reads, the stream starts, and each response is
  followed by the next read; the video has five frames and a chunk has two.
\<close>

definition example_events :: "stream_event list" where
  "example_events =
     [Read ''A'', Start, Response (example_chunk 0 1),
      Read ''A'', Response (example_chunk 2 3),
      Read ''A'', Response (example_chunk 4 4),
      Read ''A'']"

section \<open>Properties of the label normalizer\<close>

subsection \<open>Objects\<close>

lemma obj_get_map_of: "obj_get obj k = (case map_of obj k of None \<Rightarrow> JUndef | Some v \<Rightarrow> v)"
  by (induction obj) auto

lemma map_of_obj_set: "map_of (obj_set obj k v) k' = (if k' = k then Some v else map_of obj k')"
  by (induction obj) auto

lemma map_of_obj_delete: "map_of (obj_delete obj k) k' = (if k' = k then None else map_of obj k')"
  by (induction obj) auto

lemma obj_get_obj_set: "obj_get (obj_set obj k v) k' = (if k' = k then v else obj_get obj k')"
  by (induction obj) auto

lemma obj_get_obj_delete: "obj_get (obj_delete obj k) k' = (if k' = k then JUndef else obj_get obj k')"
  by (induction obj) auto

lemma obj_set_same: "map_of obj k = Some v \<Longrightarrow> obj_set obj k v = obj"
  by (induction obj) (auto split: if_splits)

lemma obj_delete_absent: "map_of obj k = None \<Longrightarrow> obj_delete obj k = obj"
  by (induction obj) (auto split: if_splits)

lemma map_of_mapId:
  "map_of (mapId obj) k =
     (if k = ''_id'' then None else if k = ''id'' then Some (obj_get obj ''_id'') else map_of obj k)"
  by (simp add: mapId_def map_of_obj_delete map_of_obj_set)

lemma obj_get_mapId_id: "obj_get (mapId obj) ''id'' = obj_get obj ''_id''"
  by (simp add: mapId_def obj_get_obj_delete obj_get_obj_set)

subsection \<open>One field value\<close>

lemma map_result_Inr:
  "map_result f xs = Inr ys \<Longrightarrow> list_all2 (\<lambda>x y. f x = Inr y) xs ys"
proof (induction xs arbitrary: ys)
  case Nil
  then show ?case by simp
next
  case (Cons x xs)
  then show ?case by (auto split: sum.splits)
qed

lemma handleLabel_primitive:
  "handleLabel E v = Inr (bufs, v') \<Longrightarrow> is_primitive v \<Longrightarrow> v' = v \<and> bufs = []"
  by (cases v)
     (auto simp: handleLabel_def untagged_ids_def is_primitive_def
           split: if_splits option.splits sum.splits)

lemma handleLabel_untagged:
  "handleLabel E v = Inr (bufs, v') \<Longrightarrow> \<not> is_obj v \<Longrightarrow>
   bufs = [] \<and> (\<not> truthy v \<and> v' = v \<or> untagged_ids E v = Inr v')"
  by (cases v) (auto simp: handleLabel_def split: if_splits sum.splits)

lemma handleLabels_map_of:
  "handleLabels E r = Inr (bufs, r') \<Longrightarrow>
   map_of r' f = (case map_of r f of None \<Rightarrow> None
                  | Some v \<Rightarrow> (case handleLabel E v of Inr (b, v') \<Rightarrow> Some v' | Inl e \<Rightarrow> None))
   \<and> (\<forall>v. map_of r f = Some v \<longrightarrow> (\<exists>b v'. handleLabel E v = Inr (b, v')))"
proof (induction r arbitrary: bufs r')
  case Nil
  then show ?case by simp
next
  case (Cons p r)
  obtain k v where p: "p = (k, v)" by (cases p)
  from Cons.prems p obtain b v' bs rest' where
    h: "handleLabel E v = Inr (b, v')" "handleLabels E r = Inr (bs, rest')"
       "r' = (k, v') # rest'"
    by (auto split: sum.splits prod.splits)
  from Cons.IH [OF h(2)] h(1) h(3) p show ?case by auto
qed

lemma handleLabels_field:
  assumes "handleLabels E r = Inr (bufs, r')" "map_of r f = Some v"
  obtains b v' where "handleLabel E v = Inr (b, v')" "map_of r' f = Some v'"
proof -
  from handleLabels_map_of [OF assms(1), of f] assms(2)
  obtain b v' where "handleLabel E v = Inr (b, v')" by auto
  moreover from this handleLabels_map_of [OF assms(1), of f] assms(2)
  have "map_of r' f = Some v'" by simp
  ultimately show ?thesis by (rule that)
qed

lemma ids_kept_refl: "ids_kept x x"
  by (cases x) (auto simp: ids_kept_def)

lemma list_all2_ids_kept_refl: "list_all2 ids_kept xs xs"
  by (simp add: list_all2_refl ids_kept_refl)

lemma deserialize_mask_keeps:
  assumes "deserialize_mask E l = Inr (bufs, l1)"
  shows "k \<noteq> ''mask'' \<Longrightarrow> map_of l1 k = map_of l k"
    and "obj_get l k = JArr i xs \<Longrightarrow> obj_get l1 k = JArr i xs"
  using assms
  by (auto simp: deserialize_mask_def map_of_obj_set obj_get_obj_set
           split: json.splits option.splits if_splits)

lemma deserialize_mask_val_ids_kept:
  "deserialize_mask_val E x = Inr (bufs, y) \<Longrightarrow> ids_kept x y"
proof (cases x)
  case (JObj e)
  assume h: "deserialize_mask_val E x = Inr (bufs, y)"
  with JObj obtain e' where e': "deserialize_mask E e = Inr (bufs, e')" "y = JObj e'"
    by (auto split: sum.splits)
  from deserialize_mask_keeps(1) [OF e'(1), of "''_id''"] e'(2) JObj show ?thesis
    by (simp add: obj_get_map_of ids_kept_def)
qed (auto simp: ids_kept_def)

lemma deserialize_detections_keeps:
  assumes "deserialize_detections E l = Inr (bufs, l1)"
  shows "k \<noteq> ''detections'' \<Longrightarrow> map_of l1 k = map_of l k"
    and "obj_get l k = JArr i xs \<Longrightarrow>
         \<exists>xs1. obj_get l1 k = JArr i xs1 \<and> list_all2 ids_kept xs xs1"
proof -
  show "k \<noteq> ''detections'' \<Longrightarrow> map_of l1 k = map_of l k"
    using assms
    by (auto simp: deserialize_detections_def map_of_obj_set split: json.splits sum.splits)
next
  assume k: "obj_get l k = JArr i xs"
  show "\<exists>xs1. obj_get l1 k = JArr i xs1 \<and> list_all2 ids_kept xs xs1"
  proof (cases "k = ''detections''")
    case True
    with k assms obtain rs where rs: "map_result (deserialize_mask_val E) xs = Inr rs"
      "l1 = obj_set l ''detections'' (JArr i (map snd rs))"
      by (auto simp: deserialize_detections_def split: sum.splits)
    from map_result_Inr [OF rs(1)]
    have "list_all2 (\<lambda>x r. ids_kept x (snd r)) xs rs"
      by (rule list_all2_mono) (auto dest: deserialize_mask_val_ids_kept)
    then have "list_all2 ids_kept xs (map snd rs)"
      by (simp add: list_all2_map2)
    with True rs(2) show ?thesis by (simp add: obj_get_obj_set)
  next
    case False
    with k assms have "obj_get l1 k = JArr i xs"
      by (auto simp: deserialize_detections_def obj_get_obj_set split: json.splits sum.splits)
    then show ?thesis by (simp add: list_all2_ids_kept_refl)
  qed
qed

lemma inherited_member_keeps:
  "inherited_member name l = Inr (bufs, l1) \<Longrightarrow> bufs = [] \<and> l1 = l"
  by (auto simp: inherited_member_def split: if_splits sum.splits)

lemma DESERIALIZE_cases:
  assumes "(case DESERIALIZE E cls of None \<Rightarrow> Inr ([], l) | Some f \<Rightarrow> f l) = Inr (bufs, l1)"
  obtains (m) "deserialize_mask E l = Inr (bufs, l1)"
    | (d) "deserialize_detections E l = Inr (bufs, l1)"
    | (n) "bufs = []" "l1 = l"
proof -
  have "deserialize_mask E l = Inr (bufs, l1) \<or> deserialize_detections E l = Inr (bufs, l1) \<or>
      inherited_member cls l = Inr (bufs, l1) \<or> bufs = [] \<and> l1 = l"
    using assms by (simp add: DESERIALIZE_def split: if_splits)
  with inherited_member_keeps [of cls l bufs l1] m d n show ?thesis by blast
qed

lemma DESERIALIZE_keeps:
  assumes "(case DESERIALIZE E cls of None \<Rightarrow> Inr ([], l) | Some f \<Rightarrow> f l) = Inr (bufs, l1)"
  shows "k \<noteq> ''mask'' \<Longrightarrow> k \<noteq> ''detections'' \<Longrightarrow> map_of l1 k = map_of l k"
    and "obj_get l k = JArr i xs \<Longrightarrow>
         \<exists>xs1. obj_get l1 k = JArr i xs1 \<and> list_all2 ids_kept xs xs1"
proof -
  note cases = DESERIALIZE_cases [OF assms]
  note cases = this
  show "map_of l1 k = map_of l k" if "k \<noteq> ''mask''" "k \<noteq> ''detections''"
    by (rule cases)
       (use that in \<open>auto dest: deserialize_mask_keeps(1) deserialize_detections_keeps(1)\<close>)
  show "\<exists>xs1. obj_get l1 k = JArr i xs1 \<and> list_all2 ids_kept xs xs1"
    if xs: "obj_get l k = JArr i xs"
  proof (rule cases)
    assume m: "deserialize_mask E l = Inr (bufs, l1)"
    from deserialize_mask_keeps(2) [OF m xs] show ?thesis
      by (auto simp: list_all2_ids_kept_refl)
  next
    assume d: "deserialize_detections E l = Inr (bufs, l1)"
    from deserialize_detections_keeps(2) [OF d xs] show ?thesis .
  next
    assume "l1 = l"
    with xs show ?thesis by (auto simp: list_all2_ids_kept_refl)
  qed
qed

lemma mapId_val_rewrites:
  "ids_kept x x1 \<Longrightarrow> mapId_val x1 = Inr y \<Longrightarrow> id_rewritten x y"
  by (cases x; cases x1)
     (auto simp: obj_get_mapId_id map_of_mapId ids_kept_def id_rewritten_def)

lemma label_ids_single:
  assumes "label_ids E cls l1 = Inr l2" "LABELS E cls" "LABEL_LISTS E cls = None"
  shows "l2 = mapId l1"
  using assms by (simp add: label_ids_def)

lemma label_ids_list:
  assumes "label_ids E cls l1 = Inr l2" "LABELS E cls" "LABEL_LISTS E cls = Some k"
  shows "k' \<noteq> k \<Longrightarrow> map_of l2 k' = map_of l1 k'"
    and "obj_get l1 k = JArr i xs1 \<Longrightarrow>
         \<exists>ys. l2 = obj_set l1 k (JArr False ys) \<and>
              list_all2 (\<lambda>x y. mapId_val x = Inr y) xs1 ys"
    and "(\<And>i xs. obj_get l1 k \<noteq> JArr i xs) \<Longrightarrow> l2 = l1"
proof -
  have h: "(case obj_get l1 k of
                JArr i xs \<Rightarrow>
                  (case map_result mapId_val xs of
                     Inl e \<Rightarrow> Inl e
                   | Inr ys \<Rightarrow> Inr (obj_set l1 k (JArr False ys)))
              | _ \<Rightarrow> Inr l1) = Inr l2"
    using assms by (simp add: label_ids_def)
  show "k' \<noteq> k \<Longrightarrow> map_of l2 k' = map_of l1 k'"
  proof (cases "obj_get l1 k")
    case (JArr i xs)
    assume "k' \<noteq> k"
    with h JArr show ?thesis
      by (cases "map_result mapId_val xs") (auto simp: map_of_obj_set)
  qed (use h in auto)
  show "\<exists>ys. l2 = obj_set l1 k (JArr False ys) \<and>
          list_all2 (\<lambda>x y. mapId_val x = Inr y) xs1 ys"
    if "obj_get l1 k = JArr i xs1"
  proof (cases "map_result mapId_val xs1")
    case (Inl e)
    with h that show ?thesis by simp
  next
    case (Inr ys)
    with h that have "l2 = obj_set l1 k (JArr False ys)" by simp
    with map_result_Inr [OF Inr] show ?thesis by auto
  qed
  show "l2 = l1" if "\<And>i xs. obj_get l1 k \<noteq> JArr i xs"
  proof (cases "obj_get l1 k")
    case (JArr i xs)
    with that [of i xs] show ?thesis by simp
  qed (use h in simp_all)
qed

lemma handleLabel_obj_cases:
  assumes h: "handleLabel E (JObj l) = Inr (bufs, v')"
    and cls: "prop_key (obj_get l ''_cls'') = Inr cls"
  obtains l1 l2 where
    "(case DESERIALIZE E cls of None \<Rightarrow> Inr ([], l) | Some f \<Rightarrow> f l) = Inr (bufs, l1)"
    "label_ids E cls l1 = Inr l2" "v' = JObj l2"
proof -
  let ?d = "case DESERIALIZE E cls of None \<Rightarrow> Inr ([], l) | Some f \<Rightarrow> f l"
  from h cls have h': "(case ?d of
                       Inl e \<Rightarrow> Inl e
                     | Inr (bufs, l1) \<Rightarrow>
                         (case label_ids E cls l1 of
                            Inl e \<Rightarrow> Inl e
                          | Inr l2 \<Rightarrow> Inr (bufs, JObj l2))) = Inr (bufs, v')"
    by (simp add: handleLabel_def)
  then obtain b l1 where d: "?d = Inr (b, l1)"
    by (cases ?d) auto
  with h' obtain l2 where i: "label_ids E cls l1 = Inr l2"
    by (cases "label_ids E cls l1") auto
  from h' d i have "b = bufs" "v' = JObj l2" by simp_all
  with d i that show ?thesis by blast
qed

lemma handleLabel_obj:
  assumes h: "handleLabel E (JObj l) = Inr (bufs, v')"
    and cls: "prop_key (obj_get l ''_cls'') = Inr cls" "LABELS E cls"
  obtains l' where "v' = JObj l'"
    and "LABEL_LISTS E cls = None \<Longrightarrow> obj_get l' ''id'' = obj_get l ''_id''"
    and "LABEL_LISTS E cls = None \<Longrightarrow> map_of l' ''_id'' = None"
    and "\<And>k. LABEL_LISTS E cls = Some k \<Longrightarrow> k \<noteq> ''_id'' \<Longrightarrow> k \<noteq> ''id'' \<Longrightarrow>
           map_of l' ''_id'' = map_of l ''_id''"
    and "\<And>k. LABEL_LISTS E cls = Some k \<Longrightarrow> k \<noteq> ''_id'' \<Longrightarrow> k \<noteq> ''id'' \<Longrightarrow>
           map_of l' ''id'' = map_of l ''id''"
    and "\<And>k i xs. LABEL_LISTS E cls = Some k \<Longrightarrow> obj_get l k = JArr i xs \<Longrightarrow>
           \<exists>ys. obj_get l' k = JArr False ys \<and> list_all2 id_rewritten xs ys"
  using h cls(1)
proof (cases rule: handleLabel_obj_cases)
  case (1 l1 l2)
  note d = 1(1) and i = 1(2) and v' = 1(3)
  have ids: "map_of l1 ''_id'' = map_of l ''_id''" "map_of l1 ''id'' = map_of l ''id''"
    using DESERIALIZE_keeps(1) [OF d] by simp_all
  show ?thesis
  proof (rule that [of l2])
    show "v' = JObj l2" by (rule v')
  next
    assume "LABEL_LISTS E cls = None"
    from label_ids_single [OF i cls(2) this] ids
    show "obj_get l2 ''id'' = obj_get l ''_id''" "map_of l2 ''_id'' = None"
      by (simp_all add: obj_get_mapId_id map_of_mapId obj_get_map_of)
  next
    fix k
    assume k: "LABEL_LISTS E cls = Some k" and "k \<noteq> ''_id''" "k \<noteq> ''id''"
    with label_ids_list(1) [OF i cls(2) k, of "''_id''"]
      label_ids_list(1) [OF i cls(2) k, of "''id''"] ids
    show "map_of l2 ''_id'' = map_of l ''_id''" "map_of l2 ''id'' = map_of l ''id''"
      by simp_all
  next
    fix k i xs
    assume k: "LABEL_LISTS E cls = Some k" and xs: "obj_get l k = JArr i xs"
    from DESERIALIZE_keeps(2) [OF d xs] obtain xs1 where
      xs1: "obj_get l1 k = JArr i xs1" "list_all2 ids_kept xs xs1" by (elim exE conjE)
    from label_ids_list(2) [OF i cls(2) k xs1(1)] obtain ys where
      ys: "l2 = obj_set l1 k (JArr False ys)" "list_all2 (\<lambda>x y. mapId_val x = Inr y) xs1 ys"
      by (elim exE conjE)
    have "list_all2 id_rewritten xs ys"
      using xs1(2) ys(2) by (rule list_all2_trans [rotated]) (rule mapId_val_rewrites)
    moreover from ys(1) have "obj_get l2 k = JArr False ys" by (simp add: obj_get_obj_set)
    ultimately show "\<exists>ys. obj_get l2 k = JArr False ys \<and> list_all2 id_rewritten xs ys"
      by (intro exI conjI)
  qed
qed

subsection \<open>A whole sample\<close>

lemma handleSample_cases:
  assumes "handleSample E s = Inr (bufs, s')"
  obtains (no_frames) b1 s1 where "handleLabels E s = Inr (b1, s1)" "s' = mapId s1"
      "bufs = b1"
  | (frames) b1 s1 i xs b2 xs' where "handleLabels E s = Inr (b1, s1)"
      "obj_get s1 ''frames'' = JArr i xs" "handleFrames E xs = Inr (b2, xs')"
      "s' = mapId (obj_set s1 ''frames'' (JArr i xs'))" "bufs = b1 @ b2"
proof -
  from assms obtain b1 s1 where s1: "handleLabels E s = Inr (b1, s1)"
    by (cases "handleLabels E s") (auto simp: handleSample_def)
  let ?fr = "obj_get s1 ''frames''"
  show ?thesis
  proof (cases "truthy ?fr \<and> truthy (length_of ?fr)")
    case False
    with assms s1 have "s' = mapId s1" "bufs = b1"
      by (simp_all add: handleSample_def Let_def)
    with s1 show ?thesis by (rule no_frames)
  next
    case True
    with assms s1 have h: "(case ?fr of
                JArr i xs \<Rightarrow>
                  (case handleFrames E xs of
                     Inl e \<Rightarrow> Inl e
                   | Inr (bufs, xs') \<Rightarrow>
                       Inr (b1 @ bufs, mapId (obj_set s1 ''frames'' (JArr i xs'))))
              | _ \<Rightarrow> Inl TypeError) = Inr (bufs, s')"
      by (simp add: handleSample_def Let_def)
    then obtain i xs where xs: "?fr = JArr i xs" by (cases ?fr) simp_all
    with h obtain b2 xs' where "handleFrames E xs = Inr (b2, xs')"
      "s' = mapId (obj_set s1 ''frames'' (JArr i xs'))" "bufs = b1 @ b2"
      by (cases "handleFrames E xs") auto
    with s1 xs show ?thesis by (rule frames)
  qed
qed

lemma handleSample_fields:
  assumes "handleSample E s = Inr (bufs, s')"
  obtains b1 s1 where "handleLabels E s = Inr (b1, s1)"
    and "map_of s' ''_id'' = None"
    and "map_of s' ''id'' = Some (obj_get s1 ''_id'')"
    and "\<And>f v. f \<noteq> ''id'' \<Longrightarrow> f \<noteq> ''_id'' \<Longrightarrow> map_of s1 f = Some v \<Longrightarrow>
           (\<And>i xs. v \<noteq> JArr i xs) \<Longrightarrow> map_of s' f = Some v"
  using assms
proof (cases rule: handleSample_cases)
  case (no_frames b1 s1)
  show ?thesis
  proof (rule that [of b1 s1])
    show "handleLabels E s = Inr (b1, s1)" by (rule no_frames(1))
  qed (simp_all add: no_frames(2) map_of_mapId)
next
  case (frames b1 s1 i xs b2 xs')
  show ?thesis
  proof (rule that [of b1 s1])
    show "handleLabels E s = Inr (b1, s1)" by (rule frames(1))
    show "map_of s' ''_id'' = None" by (simp add: frames(4) map_of_mapId)
    show "map_of s' ''id'' = Some (obj_get s1 ''_id'')"
      by (simp add: frames(4) map_of_mapId obj_get_obj_set)
  next
    fix f v
    assume f: "f \<noteq> ''id''" "f \<noteq> ''_id''" and l: "map_of s1 f = Some v"
      and v: "\<And>i xs. v \<noteq> JArr i xs"
    from l frames(2) v [of i xs] have "f \<noteq> ''frames''" by (auto simp: obj_get_map_of)
    with f l show "map_of s' f = Some v"
      by (simp add: frames(4) map_of_mapId map_of_obj_set)
  qed
qed

subsection \<open>Examples\<close>

lemmas normalizer_defs =
  handleSample_def handleLabel_def DESERIALIZE_def deserialize_detections_def
  deserialize_mask_def label_ids_def mapId_def object_prototype_names_def
  untagged_ids_def inherited_member_def

lemmas example_defs =
  example_env_def example_sample_def example_detections_def example_sample'_def
  example_detections'_def in_table_def inherited_key_def

lemma example_handleLabels:
  "handleLabels example_env [(''ground_truth'', JObj example_detections)] =
     Inr ([], [(''ground_truth'', JObj example_detections')])"
  by (simp add: normalizer_defs example_defs)

lemma example_handleSample:
  "handleSample example_env example_sample = Inr ([], example_sample')"
  by (simp add: normalizer_defs example_defs)

lemma example_label_id_normalized:
  "handleSample example_env example_label_id = Inr ([], example_label_id')"
  by (simp add: normalizer_defs example_defs example_label_id_def example_label_id'_def)

subsection \<open>The identifier of a sample and of the elements of its label lists\<close>

text \<open>
  Claim C2, as stated, fails where the \<^verbatim>\<open>_id\<close> of the record is itself a label object:
  the loop over the fields treats \<^verbatim>\<open>_id\<close> like any other field and rewrites the label
  it holds, so what arrives under \<^verbatim>\<open>id\<close> is the rewritten label and not the value that
  \<^verbatim>\<open>_id\<close> had.
\<close>

theorem handleSample_id_holds_rewritten_label:
  "map_of example_label_id ''_id'' =
     Some (JObj [(''_cls'', JStr ''Classification''), (''_id'', JStr ''w'')]) \<and>
   handleSample example_env example_label_id = Inr ([], example_label_id') \<and>
   map_of example_label_id' ''id'' =
     Some (JObj [(''_cls'', JStr ''Classification''), (''id'', JStr ''w'')]) \<and>
   map_of example_label_id' ''id'' \<noteq> map_of example_label_id ''_id''"
proof (intro conjI)
  show "handleSample example_env example_label_id = Inr ([], example_label_id')"
    by (rule example_label_id_normalized)
qed (simp_all add: example_label_id_def example_label_id'_def)

text \<open>
  Claim C2, amended. When \<^verbatim>\<open>handleSample\<close> returns (it answers \<open>Inl\<close> exactly where the
  code throws), a sample that had a top-level \<^verbatim>\<open>_id\<close> has no \<^verbatim>\<open>_id\<close> any more, and
  its \<^verbatim>\<open>id\<close> holds what \<^verbatim>\<open>_id\<close> held as the loop over the fields left it: the value
  itself when that is primitive (an identifier string, say), and the result of the
  loop body on it in general. And for every field whose value is an object tagged with
  a kind of \<open>LABELS\<close> that \<open>LABEL_LISTS\<close> maps to a list field holding an array, the loop
  over the fields rewrites every element of that array: each has its former \<^verbatim>\<open>_id\<close>
  as \<^verbatim>\<open>id\<close> afterwards and no \<^verbatim>\<open>_id\<close>. The sample that is returned holds the
  rewritten label under the same field (under \<^verbatim>\<open>id\<close> when the field was \<^verbatim>\<open>_id\<close>
  itself; only a label stored under \<^verbatim>\<open>id\<close> is replaced by the identifier).
\<close>

theorem handleSample_identifier_rewrite:
  assumes "handleSample E s = Inr (bufs, s')"
  shows "(\<forall>x. map_of s ''_id'' = Some x \<longrightarrow>
            map_of s' ''_id'' = None \<and>
            (\<exists>b x'. handleLabel E x = Inr (b, x') \<and> map_of s' ''id'' = Some x') \<and>
            (is_primitive x \<longrightarrow> map_of s' ''id'' = Some x)) \<and>
         (\<forall>f l cls k i xs.
            map_of s f = Some (JObj l) \<and>
            prop_key (obj_get l ''_cls'') = Inr cls \<and> LABELS E cls \<and>
            LABEL_LISTS E cls = Some k \<and> obj_get l k = JArr i xs \<longrightarrow>
            (\<exists>b1 s1 l' ys.
               handleLabels E s = Inr (b1, s1) \<and> map_of s1 f = Some (JObj l') \<and>
               obj_get l' k = JArr False ys \<and> list_all2 id_rewritten xs ys \<and>
               (f \<noteq> ''id'' \<and> f \<noteq> ''_id'' \<longrightarrow> map_of s' f = Some (JObj l')) \<and>
               (f = ''_id'' \<longrightarrow> map_of s' ''id'' = Some (JObj l'))))"
  using assms
proof (cases rule: handleSample_fields)
  case (1 b1 s1)
  note s1 = 1(1) and no_id = 1(2) and id = 1(3) and others = 1(4)
  show ?thesis
  proof (intro conjI allI impI)
    fix x assume x: "map_of s ''_id'' = Some x"
    from s1 x obtain b x' where
      hx: "handleLabel E x = Inr (b, x')" and x': "map_of s1 ''_id'' = Some x'"
      by (rule handleLabels_field)
    from x' id have i: "map_of s' ''id'' = Some x'"
      by (simp add: obj_get_map_of)
    show "map_of s' ''_id'' = None" by (rule no_id)
    from hx i show "\<exists>b x'. handleLabel E x = Inr (b, x') \<and> map_of s' ''id'' = Some x'"
      by (intro exI conjI)
    assume "is_primitive x"
    from handleLabel_primitive [OF hx this] i show "map_of s' ''id'' = Some x" by simp
  next
    fix f l cls k i xs
    assume a: "map_of s f = Some (JObj l) \<and>
            prop_key (obj_get l ''_cls'') = Inr cls \<and> LABELS E cls \<and>
            LABEL_LISTS E cls = Some k \<and> obj_get l k = JArr i xs"
    then have l: "map_of s f = Some (JObj l)"
      and cls: "prop_key (obj_get l ''_cls'') = Inr cls" "LABELS E cls"
      and k: "LABEL_LISTS E cls = Some k" and xs: "obj_get l k = JArr i xs"
      by simp_all
    from s1 l obtain b v' where
      hv: "handleLabel E (JObj l) = Inr (b, v')" and v': "map_of s1 f = Some v'"
      by (rule handleLabels_field)
    from hv cls show "\<exists>b1 s1 l' ys.
               handleLabels E s = Inr (b1, s1) \<and> map_of s1 f = Some (JObj l') \<and>
               obj_get l' k = JArr False ys \<and> list_all2 id_rewritten xs ys \<and>
               (f \<noteq> ''id'' \<and> f \<noteq> ''_id'' \<longrightarrow> map_of s' f = Some (JObj l')) \<and>
               (f = ''_id'' \<longrightarrow> map_of s' ''id'' = Some (JObj l'))"
    proof (rule handleLabel_obj)
      fix l'
      assume l': "v' = JObj l'"
        and lists: "\<And>k i xs. LABEL_LISTS E cls = Some k \<Longrightarrow> obj_get l k = JArr i xs \<Longrightarrow>
           \<exists>ys. obj_get l' k = JArr False ys \<and> list_all2 id_rewritten xs ys"
      from lists [OF k xs] obtain ys where
        ys: "obj_get l' k = JArr False ys" "list_all2 id_rewritten xs ys"
        by (elim exE conjE)
      from v' l' have m1: "map_of s1 f = Some (JObj l')" by simp
      have o: "f \<noteq> ''id'' \<and> f \<noteq> ''_id'' \<longrightarrow> map_of s' f = Some (JObj l')"
        using others [OF _ _ m1] by simp
      have i: "f = ''_id'' \<longrightarrow> map_of s' ''id'' = Some (JObj l')"
      proof
        assume "f = ''_id''"
        with m1 have "map_of s1 ''_id'' = Some (JObj l')" by simp
        with id show "map_of s' ''id'' = Some (JObj l')" by (simp add: obj_get_map_of)
      qed
      from s1 m1 ys o i show ?thesis by (intro exI conjI)
    qed
  qed
qed

theorem handleSample_identifier_rewrite_witness:
  "handleSample example_env example_sample = Inr ([], example_sample') \<and>
   map_of example_sample ''_id'' = Some (JStr ''x'') \<and>
   map_of example_sample' ''id'' = Some (JStr ''x'') \<and>
   map_of example_sample' ''_id'' = None \<and>
   (\<exists>l' ys. map_of example_sample' ''ground_truth'' = Some (JObj l') \<and>
            obj_get l' ''detections'' = JArr False ys \<and>
            list_all2 id_rewritten [JObj [(''_id'', JStr ''d'')]] ys)"
proof -
  note t = handleSample_identifier_rewrite [OF example_handleSample]
  have p: "map_of example_sample ''_id'' = Some (JStr ''x'')"
    by (simp add: example_defs)
  have pp: "is_primitive (JStr ''x'')" by (simp add: is_primitive_def)
  have q: "map_of example_sample ''ground_truth'' = Some (JObj example_detections) \<and>
      prop_key (obj_get example_detections ''_cls'') = Inr ''Detections'' \<and>
      LABELS example_env ''Detections'' \<and>
      LABEL_LISTS example_env ''Detections'' = Some ''detections'' \<and>
      obj_get example_detections ''detections'' = JArr False [JObj [(''_id'', JStr ''d'')]]"
    by (simp add: example_defs)
  have n: "''ground_truth'' \<noteq> ''id'' \<and> ''ground_truth'' \<noteq> ''_id''" by simp
  from t [THEN conjunct1, rule_format, OF p] pp
  have a: "map_of example_sample' ''id'' = Some (JStr ''x'')"
    "map_of example_sample' ''_id'' = None"
    by simp_all
  from t [THEN conjunct2, rule_format, OF q] obtain l' ys where
    l': "obj_get l' ''detections'' = JArr False ys"
      "list_all2 id_rewritten [JObj [(''_id'', JStr ''d'')]] ys"
      "''ground_truth'' \<noteq> ''id'' \<and> ''ground_truth'' \<noteq> ''_id'' \<longrightarrow>
         map_of example_sample' ''ground_truth'' = Some (JObj l')"
    by (elim exE conjE)
  from l'(3) n have "map_of example_sample' ''ground_truth'' = Some (JObj l')" by (rule mp)
  with l'(1,2) have "\<exists>l' ys. map_of example_sample' ''ground_truth'' = Some (JObj l') \<and>
            obj_get l' ''detections'' = JArr False ys \<and>
            list_all2 id_rewritten [JObj [(''_id'', JStr ''d'')]] ys"
    by (intro exI conjI)
  with a example_handleSample p show ?thesis by (intro conjI)
qed

subsection \<open>Which label objects are rewritten\<close>

lemma example_labels_normalized:
  "handleLabels example_env example_labels = Inr ([], example_labels')"
  by (simp add: normalizer_defs example_defs example_labels_def example_labels'_def)

text \<open>
  Claim C6, as stated, fails on the container of a list-valued kind: after
  \<^verbatim>\<open>handleLabels\<close> the \<^verbatim>\<open>Detections\<close> object of the example, a label object with a
  recognized tag, still has its \<^verbatim>\<open>_id\<close> and has no \<^verbatim>\<open>id\<close>. Line 59 of the worker sends
  a kind of \<open>LABEL_LISTS\<close> to the branch that maps \<^verbatim>\<open>mapId\<close> over the list and never
  calls it on the container.
\<close>

theorem handleLabels_container_keeps_id:
  "handleLabels example_env [(''ground_truth'', JObj example_detections)] =
     Inr ([], [(''ground_truth'', JObj example_detections')]) \<and>
   obj_get example_detections ''_cls'' = JStr ''Detections'' \<and>
   LABELS example_env ''Detections'' \<and>
   map_of example_detections' ''_id'' = Some (JStr ''c'') \<and>
   map_of example_detections' ''id'' = None"
proof (intro conjI)
  show "handleLabels example_env [(''ground_truth'', JObj example_detections)] =
     Inr ([], [(''ground_truth'', JObj example_detections')])"
    by (rule example_handleLabels)
qed (simp_all add: example_defs)

text \<open>
  Claim C6, amended. After \<^verbatim>\<open>handleLabels\<close> returns (it answers \<open>Inl\<close> exactly where
  the code throws), every field value that is a label object tagged with a kind of
  \<open>LABELS\<close> is rewritten as follows. If the kind is not list-valued, the object has its
  former \<^verbatim>\<open>_id\<close> as \<^verbatim>\<open>id\<close> and no \<^verbatim>\<open>_id\<close>. If the kind is list-valued with list
  field \<open>k\<close>, every element of the array under \<open>k\<close> has its former \<^verbatim>\<open>_id\<close> as \<^verbatim>\<open>id\<close>
  and no \<^verbatim>\<open>_id\<close>, while the container keeps its own \<^verbatim>\<open>_id\<close> and \<^verbatim>\<open>id\<close> as they
  were.
\<close>

theorem handleLabels_rewrites_labels:
  assumes "handleLabels E r = Inr (bufs, r')"
    and "map_of r f = Some (JObj l)"
    and "prop_key (obj_get l ''_cls'') = Inr cls" and "LABELS E cls"
  shows "\<exists>l'. map_of r' f = Some (JObj l') \<and>
     (LABEL_LISTS E cls = None \<longrightarrow>
        obj_get l' ''id'' = obj_get l ''_id'' \<and> map_of l' ''_id'' = None) \<and>
     (\<forall>k. LABEL_LISTS E cls = Some k \<longrightarrow>
        (k \<noteq> ''_id'' \<and> k \<noteq> ''id'' \<longrightarrow>
           map_of l' ''_id'' = map_of l ''_id'' \<and> map_of l' ''id'' = map_of l ''id'') \<and>
        (\<forall>i xs. obj_get l k = JArr i xs \<longrightarrow>
           (\<exists>ys. obj_get l' k = JArr False ys \<and> list_all2 id_rewritten xs ys)))"
proof -
  from assms(1,2) obtain b v' where
    hv: "handleLabel E (JObj l) = Inr (b, v')" and v': "map_of r' f = Some v'"
    by (rule handleLabels_field)
  from hv assms(3,4) show ?thesis
  proof (rule handleLabel_obj)
    fix l'
    assume l': "v' = JObj l'"
      and single: "LABEL_LISTS E cls = None \<Longrightarrow> obj_get l' ''id'' = obj_get l ''_id''"
        "LABEL_LISTS E cls = None \<Longrightarrow> map_of l' ''_id'' = None"
      and kept: "\<And>k. LABEL_LISTS E cls = Some k \<Longrightarrow> k \<noteq> ''_id'' \<Longrightarrow> k \<noteq> ''id'' \<Longrightarrow>
           map_of l' ''_id'' = map_of l ''_id''"
        "\<And>k. LABEL_LISTS E cls = Some k \<Longrightarrow> k \<noteq> ''_id'' \<Longrightarrow> k \<noteq> ''id'' \<Longrightarrow>
           map_of l' ''id'' = map_of l ''id''"
      and lists: "\<And>k i xs. LABEL_LISTS E cls = Some k \<Longrightarrow> obj_get l k = JArr i xs \<Longrightarrow>
           \<exists>ys. obj_get l' k = JArr False ys \<and> list_all2 id_rewritten xs ys"
    show ?thesis
    proof (intro exI [of _ l'] conjI allI impI)
      show "map_of r' f = Some (JObj l')" using v' l' by simp
    next
      assume "LABEL_LISTS E cls = None"
      then show "obj_get l' ''id'' = obj_get l ''_id''" "map_of l' ''_id'' = None"
        by (rule single)+
    next
      fix k
      assume k: "LABEL_LISTS E cls = Some k"
      {
        assume "k \<noteq> ''_id'' \<and> k \<noteq> ''id''"
        then have "k \<noteq> ''_id''" "k \<noteq> ''id''" by simp_all
        with k show "map_of l' ''_id'' = map_of l ''_id''" "map_of l' ''id'' = map_of l ''id''"
          by (rule kept)+
      }
      fix i xs
      assume "obj_get l k = JArr i xs"
      with k show "\<exists>ys. obj_get l' k = JArr False ys \<and> list_all2 id_rewritten xs ys"
        by (rule lists)
    qed
  qed
qed

theorem handleLabels_rewrites_labels_witness:
  "handleLabels example_env example_labels = Inr ([], example_labels') \<and>
   map_of example_labels' ''weather'' =
     Some (JObj [(''_cls'', JStr ''Classification''), (''id'', JStr ''w'')]) \<and>
   (\<exists>l'. map_of example_labels' ''ground_truth'' = Some (JObj l') \<and>
     map_of l' ''_id'' = Some (JStr ''c'') \<and> map_of l' ''id'' = None \<and>
     (\<exists>ys. obj_get l' ''detections'' = JArr False ys \<and>
        list_all2 id_rewritten [JObj [(''_id'', JStr ''d'')]] ys))"
proof -
  have g: "map_of example_labels ''ground_truth'' = Some (JObj example_detections)"
    "prop_key (obj_get example_detections ''_cls'') = Inr ''Detections''"
    "LABELS example_env ''Detections''"
    by (simp_all add: example_defs example_labels_def)
  have k: "LABEL_LISTS example_env ''Detections'' = Some ''detections''"
    "''detections'' \<noteq> ''_id'' \<and> ''detections'' \<noteq> ''id''"
    "obj_get example_detections ''detections'' = JArr False [JObj [(''_id'', JStr ''d'')]]"
    "map_of example_detections ''_id'' = Some (JStr ''c'')"
    "map_of example_detections ''id'' = None"
    by (simp_all add: example_defs)
  from handleLabels_rewrites_labels [OF example_labels_normalized g]
  obtain l' where l': "map_of example_labels' ''ground_truth'' = Some (JObj l')"
    and r: "\<forall>k. LABEL_LISTS example_env ''Detections'' = Some k \<longrightarrow>
        (k \<noteq> ''_id'' \<and> k \<noteq> ''id'' \<longrightarrow>
           map_of l' ''_id'' = map_of example_detections ''_id'' \<and>
           map_of l' ''id'' = map_of example_detections ''id'') \<and>
        (\<forall>i xs. obj_get example_detections k = JArr i xs \<longrightarrow>
           (\<exists>ys. obj_get l' k = JArr False ys \<and> list_all2 id_rewritten xs ys))"
    by (elim exE conjE)
  from r [rule_format, OF k(1), THEN conjunct1, rule_format, OF k(2)] k(4,5)
  have ids: "map_of l' ''_id'' = Some (JStr ''c'')" "map_of l' ''id'' = None" by simp_all
  from r [rule_format, OF k(1), THEN conjunct2, rule_format, OF k(3)]
  have ys: "\<exists>ys. obj_get l' ''detections'' = JArr False ys \<and>
        list_all2 id_rewritten [JObj [(''_id'', JStr ''d'')]] ys" .
  have w: "map_of example_labels' ''weather'' =
     Some (JObj [(''_cls'', JStr ''Classification''), (''id'', JStr ''w'')])"
    by (simp add: example_labels'_def)
  from l' ids ys have "\<exists>l'. map_of example_labels' ''ground_truth'' = Some (JObj l') \<and>
     map_of l' ''_id'' = Some (JStr ''c'') \<and> map_of l' ''id'' = None \<and>
     (\<exists>ys. obj_get l' ''detections'' = JArr False ys \<and>
        list_all2 id_rewritten [JObj [(''_id'', JStr ''d'')]] ys)"
    by (intro exI [of _ l'] conjI)
  with example_labels_normalized w show ?thesis by (intro conjI)
qed

subsection \<open>Samples without identifiers and encoded masks\<close>

lemma no_internal_id_JObj:
  "no_internal_id (JObj kvs) = (\<forall>p\<in>set kvs. fst p \<noteq> ''_id'' \<and> no_internal_id (snd p))"
  by (simp add: list_all_iff)

lemma no_internal_id_JArr: "no_internal_id (JArr i xs) = (\<forall>x\<in>set xs. no_internal_id x)"
  by (simp add: list_all_iff)

lemma no_encoded_mask_JObj:
  "no_encoded_mask (JObj kvs) =
     (\<forall>p\<in>set kvs. no_encoded_mask (snd p) \<and> (fst p = ''mask'' \<longrightarrow> (\<forall>s. snd p \<noteq> JStr s)))"
  by (auto simp: list_all_iff split: json.splits)

lemma no_encoded_mask_JArr: "no_encoded_mask (JArr i xs) = (\<forall>x\<in>set xs. no_encoded_mask x)"
  by (simp add: list_all_iff)

declare no_internal_id.simps(7,8) [simp del]
declare no_encoded_mask.simps(7,8) [simp del]

text \<open>A value is clean when it has no \<^verbatim>\<open>_id\<close> and no textual mask at any depth.\<close>

lemma obj_get_in_set: "obj_get kvs k = v \<Longrightarrow> v \<noteq> JUndef \<Longrightarrow> (k, v) \<in> set kvs"
  by (induction kvs) (auto split: if_splits)

lemma obj_get_map_of_Some: "obj_get kvs k = v \<Longrightarrow> v \<noteq> JUndef \<Longrightarrow> map_of kvs k = Some v"
  by (induction kvs) (auto split: if_splits)

lemma no_internal_id_obj_get:
  "no_internal_id (JObj kvs) \<Longrightarrow> no_internal_id (obj_get kvs k)"
proof (cases "obj_get kvs k = JUndef")
  case False
  assume "no_internal_id (JObj kvs)"
  with obj_get_in_set [OF refl False] show ?thesis
    by (auto simp: no_internal_id_JObj)
qed simp

lemma no_encoded_mask_obj_get:
  "no_encoded_mask (JObj kvs) \<Longrightarrow> no_encoded_mask (obj_get kvs k)"
proof (cases "obj_get kvs k = JUndef")
  case False
  assume "no_encoded_mask (JObj kvs)"
  with obj_get_in_set [OF refl False] show ?thesis
    by (auto simp: no_encoded_mask_JObj)
qed simp

lemma no_encoded_mask_mask:
  assumes "no_encoded_mask (JObj kvs)"
  shows "obj_get kvs ''mask'' \<noteq> JStr s"
proof
  assume m: "obj_get kvs ''mask'' = JStr s"
  then have "(''mask'', JStr s) \<in> set kvs" by (rule obj_get_in_set) simp
  with assms show False by (auto simp: no_encoded_mask_JObj)
qed

lemma deserialize_mask_clean:
  assumes "deserialize_mask E l = Inr (b, l1)" "no_encoded_mask (JObj l)"
  shows "b = [] \<and> l1 = l"
proof (cases "obj_get l ''mask''")
  case (JStr s)
  with no_encoded_mask_mask [OF assms(2), of s] show ?thesis by simp
qed (use assms(1) in \<open>simp_all add: deserialize_mask_def\<close>)

lemma deserialize_mask_val_clean:
  assumes "deserialize_mask_val E x = Inr r" "no_encoded_mask x"
  shows "r = ([], x)"
proof (cases x)
  case (JObj l)
  with assms(1) obtain b l1 where d: "deserialize_mask E l = Inr (b, l1)" "r = (b, JObj l1)"
    by (cases "deserialize_mask E l") auto
  from deserialize_mask_clean [OF d(1)] assms(2) JObj d(2) show ?thesis by simp
qed (use assms(1) in auto)

lemma map_result_clean:
  assumes "map_result f xs = Inr rs" "\<And>x r. x \<in> set xs \<Longrightarrow> f x = Inr r \<Longrightarrow> r = ([], x)"
  shows "concat (map fst rs) = [] \<and> map snd rs = xs"
  using assms
proof (induction xs arbitrary: rs)
  case Nil
  then show ?case by simp
next
  case (Cons x xs)
  from Cons.prems(1) obtain r rs' where r: "f x = Inr r" "map_result f xs = Inr rs'" "rs = r # rs'"
    by (cases "f x"; cases "map_result f xs") auto
  from Cons.prems(2) [OF _ r(1)] have "r = ([], x)" by simp
  moreover from Cons.IH [OF r(2)] Cons.prems(2)
  have "concat (map fst rs') = [] \<and> map snd rs' = xs" by simp
  ultimately show ?case using r(3) by simp
qed

lemma deserialize_detections_clean:
  assumes "deserialize_detections E l = Inr (b, l1)" "no_encoded_mask (JObj l)"
  shows "b = [] \<and> l1 = l"
proof (cases "obj_get l ''detections''")
  case (JArr i xs)
  with assms(1) obtain rs where rs: "map_result (deserialize_mask_val E) xs = Inr rs"
    "b = concat (map fst rs)" "l1 = obj_set l ''detections'' (JArr i (map snd rs))"
    by (cases "map_result (deserialize_mask_val E) xs") (auto simp: deserialize_detections_def)
  from no_encoded_mask_obj_get [OF assms(2), of "''detections''"] JArr
  have "\<forall>x\<in>set xs. no_encoded_mask x" by (simp add: no_encoded_mask_JArr)
  with map_result_clean [OF rs(1)] have c: "concat (map fst rs) = [] \<and> map snd rs = xs"
    by (auto dest: deserialize_mask_val_clean)
  from JArr have "map_of l ''detections'' = Some (JArr i xs)"
    by (rule obj_get_map_of_Some) simp
  then have "obj_set l ''detections'' (JArr i xs) = l" by (rule obj_set_same)
  with c rs(2,3) show ?thesis by simp
qed (use assms(1) in \<open>simp_all add: deserialize_detections_def\<close>)

lemma DESERIALIZE_clean:
  assumes "(case DESERIALIZE E cls of None \<Rightarrow> Inr ([], l) | Some f \<Rightarrow> f l) = Inr (b, l1)"
    "no_encoded_mask (JObj l)"
  shows "b = [] \<and> l1 = l"
  using assms(1)
proof (cases rule: DESERIALIZE_cases)
  case m
  then show ?thesis using assms(2) by (rule deserialize_mask_clean)
next
  case d
  then show ?thesis using assms(2) by (rule deserialize_detections_clean)
next
  case n
  then show ?thesis by simp
qed

lemma strip_ids_obj_set_id: "strip_ids (JObj (obj_set kvs ''id'' v)) = strip_ids (JObj kvs)"
  by (induction kvs) auto

lemma strip_ids_obj_set:
  "map_of kvs k = Some v \<Longrightarrow> strip_ids v' = strip_ids v \<Longrightarrow>
   strip_ids (JObj (obj_set kvs k v')) = strip_ids (JObj kvs)"
  by (induction kvs) (auto split: if_splits)

lemma obj_set_keeps_keys: "p \<in> set (obj_set kvs k v) \<Longrightarrow> fst p = k \<or> fst p \<in> fst ` set kvs"
  by (induction kvs) (auto split: if_splits)

lemma obj_set_members: "p \<in> set (obj_set kvs k v) \<Longrightarrow> p = (k, v) \<or> p \<in> set kvs"
  by (induction kvs) (auto split: if_splits)

lemma obj_delete_no_key: "\<forall>p\<in>set kvs. fst p \<noteq> k \<Longrightarrow> obj_delete kvs k = kvs"
  by (induction kvs) auto

lemma mapId_no_id:
  assumes "\<forall>p\<in>set l. fst p \<noteq> ''_id''"
  shows "mapId l = obj_set l ''id'' JUndef"
proof -
  have "\<forall>p\<in>set (obj_set l ''id'' (obj_get l ''_id'')). fst p \<noteq> ''_id''"
    using assms by (auto dest!: obj_set_keeps_keys)
  then have "obj_delete (obj_set l ''id'' (obj_get l ''_id'')) ''_id'' =
      obj_set l ''id'' (obj_get l ''_id'')"
    by (rule obj_delete_no_key)
  moreover have "obj_get l ''_id'' = JUndef" using assms by (induction l) auto
  ultimately show ?thesis by (simp add: mapId_def)
qed

lemma mapId_val_clear:
  assumes "mapId_val x = Inr y" "no_internal_id x"
  shows "y = clear_id x"
proof (cases x)
  case (JObj l)
  with assms mapId_no_id [of l] show ?thesis
    by (simp add: no_internal_id_JObj clear_id_def)
qed (use assms(1) in \<open>simp_all add: clear_id_def\<close>)

lemma strip_ids_clear_id: "strip_ids (clear_id x) = strip_ids x"
  by (cases x) (simp_all add: clear_id_def strip_ids_obj_set_id del: strip_ids.simps(8))

lemma no_internal_id_clear_id: "no_internal_id x \<Longrightarrow> no_internal_id (clear_id x)"
  by (cases x)
     (auto simp: clear_id_def no_internal_id_JObj no_internal_id_JArr dest!: obj_set_members)

lemma no_encoded_mask_clear_id: "no_encoded_mask x \<Longrightarrow> no_encoded_mask (clear_id x)"
  by (cases x)
     (auto simp: clear_id_def no_encoded_mask_JObj no_encoded_mask_JArr dest!: obj_set_members)

lemma map_result_mapId_clear:
  assumes "map_result mapId_val xs = Inr ys" "\<forall>x\<in>set xs. no_internal_id x"
  shows "ys = map clear_id xs"
  using assms
proof (induction xs arbitrary: ys)
  case Nil
  then show ?case by simp
next
  case (Cons x xs)
  from Cons.prems(1) obtain y ys' where
    y: "mapId_val x = Inr y" "map_result mapId_val xs = Inr ys'" "ys = y # ys'"
    by (cases "mapId_val x"; cases "map_result mapId_val xs") auto
  from mapId_val_clear [OF y(1)] Cons.prems(2) have "y = clear_id x" by simp
  moreover from Cons.IH [OF y(2)] Cons.prems(2) have "ys' = map clear_id xs" by simp
  ultimately show ?case using y(3) by simp
qed

lemma label_ids_exact:
  assumes "label_ids E cls l = Inr l2" "no_internal_id (JObj l)"
  shows "l2 = label_without_id E cls l"
proof (cases "LABELS E cls")
  case False
  with assms(1) show ?thesis by (simp add: label_ids_def label_without_id_def)
next
  case True
  show ?thesis
  proof (cases "LABEL_LISTS E cls")
    case None
    from label_ids_single [OF assms(1) True None] mapId_no_id [of l] assms(2) True None
    show ?thesis by (simp add: no_internal_id_JObj label_without_id_def)
  next
    case (Some k)
    show ?thesis
    proof (cases "\<exists>i xs. obj_get l k = JArr i xs")
      case False
      then have n: "\<And>i xs. obj_get l k \<noteq> JArr i xs" by simp
      from label_ids_list(3) [OF assms(1) True Some n] have "l2 = l" .
      moreover have "label_without_id E cls l = l"
      proof (cases "obj_get l k")
        case (JArr i xs)
        with n [of i xs] show ?thesis by simp
      qed (use True Some in \<open>simp_all add: label_without_id_def\<close>)
      ultimately show ?thesis by simp
    next
      case True': True
      then obtain i xs where xs: "obj_get l k = JArr i xs" by (elim exE)
      from label_ids_list(2) [OF assms(1) True Some xs] obtain ys where
        ys: "l2 = obj_set l k (JArr False ys)" "list_all2 (\<lambda>x y. mapId_val x = Inr y) xs ys"
        by (elim exE conjE)
      from no_internal_id_obj_get [OF assms(2), of k] xs
      have c: "\<forall>x\<in>set xs. no_internal_id x" by (simp add: no_internal_id_JArr)
      have "ys = map clear_id xs"
        using ys(2) c
      proof (induction xs ys rule: list_all2_induct)
        case Nil
        then show ?case by simp
      next
        case (Cons x xs y ys)
        from mapId_val_clear [OF Cons.hyps(1)] Cons.prems have "y = clear_id x" by simp
        with Cons.IH Cons.prems show ?case by simp
      qed
      with ys(1) xs True Some show ?thesis by (simp add: label_without_id_def)
    qed
  qed
qed

lemma obj_set_clean_id:
  assumes "no_internal_id (JObj l)" "no_internal_id v" "k \<noteq> ''_id''"
  shows "no_internal_id (JObj (obj_set l k v))"
  using assms by (auto simp: no_internal_id_JObj dest!: obj_set_members)

lemma obj_set_clean_mask:
  assumes "no_encoded_mask (JObj l)" "no_encoded_mask v" "\<And>s. v \<noteq> JStr s"
  shows "no_encoded_mask (JObj (obj_set l k v))"
  using assms by (auto simp: no_encoded_mask_JObj dest!: obj_set_members)

lemma label_without_id_cases:
  obtains (same) "label_without_id E cls l = l"
    | (single) "label_without_id E cls l = obj_set l ''id'' JUndef"
    | (list) k i xs where "obj_get l k = JArr i xs"
        "label_without_id E cls l = obj_set l k (JArr False (map clear_id xs))"
proof (cases "LABELS E cls")
  case False
  then have "label_without_id E cls l = l" by (simp add: label_without_id_def)
  then show ?thesis by (rule same)
next
  case True
  show ?thesis
  proof (cases "LABEL_LISTS E cls")
    case None
    with True have "label_without_id E cls l = obj_set l ''id'' JUndef"
      by (simp add: label_without_id_def)
    then show ?thesis by (rule single)
  next
    case (Some k)
    show ?thesis
    proof (cases "obj_get l k")
      case (JArr i xs)
      with True Some
      have "label_without_id E cls l = obj_set l k (JArr False (map clear_id xs))"
        by (simp add: label_without_id_def)
      with JArr show ?thesis by (rule list)
    qed (rule same, simp add: label_without_id_def True Some)+
  qed
qed

lemma label_without_id_clean:
  assumes "no_internal_id (JObj l)" "no_encoded_mask (JObj l)"
  shows "strip_ids (JObj (label_without_id E cls l)) = strip_ids (JObj l)"
    and "no_internal_id (JObj (label_without_id E cls l))"
    and "no_encoded_mask (JObj (label_without_id E cls l))"
proof -
  note cases = label_without_id_cases [of E cls l]
  show "strip_ids (JObj (label_without_id E cls l)) = strip_ids (JObj l)"
  proof (cases rule: cases)
    case same
    then show ?thesis by simp
  next
    case single
    then show ?thesis by (simp only: strip_ids_obj_set_id)
  next
    case (list k i xs)
    have "map strip_ids (map clear_id xs) = map strip_ids xs"
      by (simp add: strip_ids_clear_id)
    then have "strip_ids (JArr False (map clear_id xs)) = strip_ids (JArr i xs)" by simp
    moreover from list(1) have "map_of l k = Some (JArr i xs)"
      by (rule obj_get_map_of_Some) simp
    ultimately show ?thesis using list(2) by (simp only: strip_ids_obj_set)
  qed
  show "no_internal_id (JObj (label_without_id E cls l))"
  proof (cases rule: cases)
    case same
    with assms(1) show ?thesis by simp
  next
    case single
    with obj_set_clean_id [OF assms(1), of JUndef "''id''"] show ?thesis by simp
  next
    case (list k i xs)
    from no_internal_id_obj_get [OF assms(1), of k] list(1)
    have "\<forall>x\<in>set xs. no_internal_id x" by (simp add: no_internal_id_JArr)
    then have a: "no_internal_id (JArr False (map clear_id xs))"
      by (simp add: no_internal_id_JArr no_internal_id_clear_id)
    from list(1) have "(k, JArr i xs) \<in> set l" by (rule obj_get_in_set) simp
    with assms(1) have "k \<noteq> ''_id''" by (auto simp: no_internal_id_JObj)
    with obj_set_clean_id [OF assms(1) a] list(2) show ?thesis by simp
  qed
  show "no_encoded_mask (JObj (label_without_id E cls l))"
  proof (cases rule: cases)
    case same
    with assms(2) show ?thesis by simp
  next
    case single
    with obj_set_clean_mask [OF assms(2), of JUndef "''id''"] show ?thesis by simp
  next
    case (list k i xs)
    from no_encoded_mask_obj_get [OF assms(2), of k] list(1)
    have "\<forall>x\<in>set xs. no_encoded_mask x" by (simp add: no_encoded_mask_JArr)
    then have a: "no_encoded_mask (JArr False (map clear_id xs))"
      by (simp add: no_encoded_mask_JArr no_encoded_mask_clear_id)
    with obj_set_clean_mask [OF assms(2) a] list(2) show ?thesis by simp
  qed
qed

lemma array_index_less: "array_index xs k = Some n \<Longrightarrow> n < length xs"
  by (auto simp: array_index_def find_Some_iff)

lemma untagged_ids_cases:
  assumes "untagged_ids E v = Inr v'" "no_internal_id v"
  obtains (same) "v' = v"
    | (cleared) "v' = clear_id v"
    | (element) i xs n j ys where "v = JArr i xs" "n < length xs" "xs ! n = JArr j ys"
        "v' = JArr i (xs[n := JArr False (map clear_id ys)])"
proof (cases "LABELS E ''undefined''")
  case False
  with assms(1) have "v' = v" by (simp add: untagged_ids_def)
  then show ?thesis by (rule same)
next
  case True
  show ?thesis
  proof (cases "LABEL_LISTS E ''undefined''")
    case None
    with True assms(1) have "mapId_val v = Inr v'" by (simp add: untagged_ids_def)
    from mapId_val_clear [OF this assms(2)] show ?thesis by (rule cleared)
  next
    case (Some k)
    with True assms(1) have h: "(case v of
                JArr i xs \<Rightarrow>
                  (case array_index xs k of
                     Some n \<Rightarrow>
                       (case xs ! n of
                          JArr j ys \<Rightarrow>
                            (case map_result mapId_val ys of
                               Inl e \<Rightarrow> Inl e
                             | Inr ys' \<Rightarrow> Inr (JArr i (xs[n := JArr False ys'])))
                        | _ \<Rightarrow> Inr v)
                   | None \<Rightarrow> Inr v)
              | _ \<Rightarrow> Inr v) = Inr v'"
      by (simp add: untagged_ids_def)
    show ?thesis
    proof (cases "\<exists>i xs n j ys. v = JArr i xs \<and> array_index xs k = Some n \<and> xs ! n = JArr j ys")
      case False
      with h have "v' = v"
        by (auto split: json.splits option.splits)
      then show ?thesis by (rule same)
    next
      case True': True
      then obtain i xs n j ys where
        v: "v = JArr i xs" "array_index xs k = Some n" "xs ! n = JArr j ys"
        by (elim exE conjE)
      from h v obtain ys' where ys': "map_result mapId_val ys = Inr ys'"
        "v' = JArr i (xs[n := JArr False ys'])"
        by (cases "map_result mapId_val ys") auto
      from array_index_less [OF v(2)] have n: "n < length xs" .
      with assms(2) v(1,3) have "\<forall>y\<in>set ys. no_internal_id y"
        by (auto simp: no_internal_id_JArr dest!: nth_mem)
      from map_result_mapId_clear [OF ys'(1) this] ys'(2)
      have "v' = JArr i (xs[n := JArr False (map clear_id ys)])" by simp
      with v(1) n v(3) show ?thesis by (rule element)
    qed
  qed
qed

lemma untagged_ids_clean:
  assumes "untagged_ids E v = Inr v'" "no_internal_id v" "no_encoded_mask v"
  shows "strip_ids v' = strip_ids v \<and> no_internal_id v' \<and> no_encoded_mask v'"
  using assms(1,2)
proof (cases rule: untagged_ids_cases)
  case same
  with assms show ?thesis by simp
next
  case cleared
  with assms show ?thesis
    by (simp add: strip_ids_clear_id no_internal_id_clear_id no_encoded_mask_clear_id)
next
  case (element i xs n j ys)
  from assms(2,3) element(1,2,3)
  have ys: "\<forall>y\<in>set ys. no_internal_id y" "\<forall>y\<in>set ys. no_encoded_mask y"
    by (auto simp: no_internal_id_JArr no_encoded_mask_JArr dest!: nth_mem)
  have "map strip_ids (map clear_id ys) = map strip_ids ys"
    by (simp add: strip_ids_clear_id)
  then have "strip_ids (JArr False (map clear_id ys)) = strip_ids (xs ! n)"
    using element(3) by simp
  then have "map strip_ids (xs[n := JArr False (map clear_id ys)]) = map strip_ids xs"
    using element(2) by (simp add: map_update list_update_same_conv del: strip_ids.simps)
  then have s: "strip_ids v' = strip_ids v" using element(1,4) by simp
  have a: "no_internal_id (JArr False (map clear_id ys))"
    "no_encoded_mask (JArr False (map clear_id ys))"
    using ys by (simp_all add: no_internal_id_JArr no_encoded_mask_JArr
          no_internal_id_clear_id no_encoded_mask_clear_id)
  from assms(2,3) element(1) a
  have "no_internal_id v'" "no_encoded_mask v'"
    unfolding element(4)
    by (auto simp: no_internal_id_JArr no_encoded_mask_JArr dest!: set_update_subset_insert [THEN subsetD])
  with s show ?thesis by simp
qed

lemma handleLabel_obj_steps:
  assumes h: "handleLabel E (JObj l) = Inr (bufs, v')"
  obtains cls l1 l2 where "prop_key (obj_get l ''_cls'') = Inr cls"
    "(case DESERIALIZE E cls of None \<Rightarrow> Inr ([], l) | Some f \<Rightarrow> f l) = Inr (bufs, l1)"
    "label_ids E cls l1 = Inr l2" "v' = JObj l2"
proof (cases "prop_key (obj_get l ''_cls'')")
  case (Inl e)
  with h show ?thesis by (simp add: handleLabel_def)
next
  case (Inr cls)
  from h Inr show ?thesis
  proof (cases rule: handleLabel_obj_cases)
    case (1 l1 l2)
    with Inr show ?thesis by (rule that)
  qed
qed

lemma handleLabel_clean_obj:
  assumes "handleLabel E (JObj l) = Inr (b, v')" "no_internal_id (JObj l)"
    "no_encoded_mask (JObj l)"
  obtains cls where "prop_key (obj_get l ''_cls'') = Inr cls"
    "b = []" "v' = JObj (label_without_id E cls l)"
  using assms(1)
proof (cases rule: handleLabel_obj_steps)
  case (1 cls l1 l2)
  from DESERIALIZE_clean [OF 1(2) assms(3)] have b: "b = []" and l1: "l1 = l" by simp_all
  from label_ids_exact [of E cls l l2] 1(3) l1 assms(2)
  have "l2 = label_without_id E cls l" by simp
  with 1(1) b 1(4) show ?thesis by (intro that) simp_all
qed

lemma handleLabel_clean:
  assumes "handleLabel E v = Inr (b, v')" "no_internal_id v" "no_encoded_mask v"
  shows "b = [] \<and> strip_ids v' = strip_ids v \<and> no_internal_id v' \<and> no_encoded_mask v'"
proof (cases "is_obj v")
  case True
  then obtain l where v: "v = JObj l" by (cases v) auto
  from assms [unfolded v] show ?thesis
  proof (cases rule: handleLabel_clean_obj)
    case (1 cls)
    with label_without_id_clean [of l E cls] assms(2,3) v show ?thesis by simp
  qed
next
  case False
  from handleLabel_untagged [OF assms(1) False]
  have b: "b = []" and d: "\<not> truthy v \<and> v' = v \<or> untagged_ids E v = Inr v'" by simp_all
  from d show ?thesis
  proof
    assume "\<not> truthy v \<and> v' = v"
    with b assms(2,3) show ?thesis by simp
  next
    assume "untagged_ids E v = Inr v'"
    from untagged_ids_clean [OF this assms(2,3)] b show ?thesis by simp
  qed
qed

lemma map_result_pairs_clean:
  assumes "map_result f xs = Inr rs"
    "\<And>x r. x \<in> set xs \<Longrightarrow> f x = Inr r \<Longrightarrow> fst r = [] \<and> strip_ids (snd r) = strip_ids x"
  shows "concat (map fst rs) = [] \<and> map strip_ids (map snd rs) = map strip_ids xs"
  using assms
proof (induction xs arbitrary: rs)
  case Nil
  then show ?case by simp
next
  case (Cons x xs)
  from Cons.prems(1) obtain r rs' where r: "f x = Inr r" "map_result f xs = Inr rs'" "rs = r # rs'"
    by (cases "f x"; cases "map_result f xs") auto
  from Cons.prems(2) [OF _ r(1)] have "fst r = [] \<and> strip_ids (snd r) = strip_ids x" by simp
  moreover have "concat (map fst rs') = [] \<and> map strip_ids (map snd rs') = map strip_ids xs"
  proof (rule Cons.IH [OF r(2)])
    fix y q
    assume "y \<in> set xs" and q: "f y = Inr q"
    then have "y \<in> set (x # xs)" by simp
    then show "fst q = [] \<and> strip_ids (snd q) = strip_ids y" using q by (rule Cons.prems(2))
  qed
  ultimately show ?case using r(3) by simp
qed

lemma strip_ids_JObj_cong:
  "map fst r' = map fst r \<Longrightarrow>
   map (\<lambda>p. strip_ids (snd p)) r' = map (\<lambda>p. strip_ids (snd p)) r \<Longrightarrow>
   strip_ids (JObj r') = strip_ids (JObj r)"
proof (induction r arbitrary: r')
  case Nil
  then show ?case by simp
next
  case (Cons p r)
  then obtain p' r'' where r': "r' = p' # r''" by (cases r') auto
  with Cons.prems have "fst p' = fst p" "strip_ids (snd p') = strip_ids (snd p)"
    "map fst r'' = map fst r"
    "map (\<lambda>p. strip_ids (snd p)) r'' = map (\<lambda>p. strip_ids (snd p)) r"
    by simp_all
  with Cons.IH [of r''] r' show ?case by (cases p; cases p') simp
qed

lemma handleLabels_clean:
  assumes "handleLabels E r = Inr (b, r')"
    "\<forall>p\<in>set r. no_internal_id (snd p) \<and> no_encoded_mask (snd p)"
  shows "b = [] \<and> map fst r' = map fst r \<and>
    map (\<lambda>p. strip_ids (snd p)) r' = map (\<lambda>p. strip_ids (snd p)) r \<and>
    (\<forall>p\<in>set r'. no_internal_id (snd p) \<and> no_encoded_mask (snd p))"
  using assms
proof (induction r arbitrary: b r')
  case Nil
  then show ?case by simp
next
  case (Cons p r)
  obtain k v where p: "p = (k, v)" by (cases p)
  from Cons.prems(1) p obtain b1 v' b2 rest' where
    h: "handleLabel E v = Inr (b1, v')" "handleLabels E r = Inr (b2, rest')"
       "r' = (k, v') # rest'" "b = b1 @ b2"
    by (cases "handleLabel E v"; cases "handleLabels E r") auto
  from handleLabel_clean [OF h(1)] Cons.prems(2) p
  have "b1 = [] \<and> strip_ids v' = strip_ids v \<and> no_internal_id v' \<and> no_encoded_mask v'"
    by simp
  moreover have "\<forall>p\<in>set r. no_internal_id (snd p) \<and> no_encoded_mask (snd p)"
    using Cons.prems(2) by simp
  then have "b2 = [] \<and> map fst rest' = map fst r \<and>
    map (\<lambda>p. strip_ids (snd p)) rest' = map (\<lambda>p. strip_ids (snd p)) r \<and>
    (\<forall>p\<in>set rest'. no_internal_id (snd p) \<and> no_encoded_mask (snd p))"
    by (rule Cons.IH [OF h(2)])
  ultimately show ?case using h(3,4) p by simp
qed

lemma handleLabels_val_clean:
  assumes "handleLabels_val E v = Inr (b, v')" "no_internal_id v" "no_encoded_mask v"
  shows "b = [] \<and> strip_ids v' = strip_ids v"
proof (cases v)
  case (JObj frame)
  with assms(1) obtain frame' where f: "handleLabels E frame = Inr (b, frame')" "v' = JObj frame'"
    by (cases "handleLabels E frame") auto
  from assms(2,3) JObj
  have "\<forall>p\<in>set frame. no_internal_id (snd p) \<and> no_encoded_mask (snd p)"
    by (simp add: no_internal_id_JObj no_encoded_mask_JObj)
  note c = handleLabels_clean [OF f(1) this]
  from c have "strip_ids (JObj frame') = strip_ids (JObj frame)"
    by (intro strip_ids_JObj_cong) (elim conjE, assumption)+
  with c f(2) JObj show ?thesis by simp
next
  case (JArr i xs)
  with assms(1) obtain rs where rs: "map_result (handleLabel E) xs = Inr rs"
    "b = concat (map fst rs)" "v' = JArr i (map snd rs)"
    by (cases "map_result (handleLabel E) xs") auto
  have "fst r = [] \<and> strip_ids (snd r) = strip_ids x"
    if "x \<in> set xs" "handleLabel E x = Inr r" for x r
  proof -
    from that(1) assms(2,3) JArr have "no_internal_id x" "no_encoded_mask x"
      by (simp_all add: no_internal_id_JArr no_encoded_mask_JArr)
    with handleLabel_clean [of E x "fst r" "snd r"] that(2) show ?thesis by simp
  qed
  with map_result_pairs_clean [OF rs(1)] rs(2,3) JArr show ?thesis by simp
qed (use assms(1) in \<open>auto split: sum.splits\<close>)

lemma handleFrames_clean:
  assumes "handleFrames E xs = Inr (b, xs')"
    "\<forall>x\<in>set xs. no_internal_id x \<and> no_encoded_mask x"
  shows "b = [] \<and> map strip_ids xs' = map strip_ids xs"
proof -
  from assms(1) obtain rs where rs: "map_result (handleLabels_val E) xs = Inr rs"
    "b = concat (map fst rs)" "xs' = map snd rs"
    by (cases "map_result (handleLabels_val E) xs") (auto simp: handleFrames_def)
  have "fst r = [] \<and> strip_ids (snd r) = strip_ids x"
    if "x \<in> set xs" "handleLabels_val E x = Inr r" for x r
    using handleLabels_val_clean [of E x "fst r" "snd r"] that assms(2) by simp
  with map_result_pairs_clean [OF rs(1)] rs(2,3) show ?thesis by simp
qed

lemma same_keys_no_key:
  "map fst a = map fst b \<Longrightarrow> \<forall>p\<in>set b. fst p \<noteq> k \<Longrightarrow> \<forall>p\<in>set a. fst p \<noteq> k"
proof (induction a arbitrary: b)
  case Nil
  then show ?case by simp
next
  case (Cons p a)
  then obtain q b' where b: "b = q # b'" by (cases b) auto
  with Cons.prems have "fst p = fst q" "map fst a = map fst b'" "\<forall>p\<in>set b'. fst p \<noteq> k"
    "fst q \<noteq> k"
    by simp_all
  with Cons.IH [of b'] show ?case by simp
qed

text \<open>
  Claim C7, as stated, fails: a sample with no \<^verbatim>\<open>_id\<close> and no encoded mask that has an
  \<^verbatim>\<open>id\<close> (a sample normalized once already) is changed by \<^verbatim>\<open>handleSample\<close>, because
  \<^verbatim>\<open>mapId\<close> assigns \<^verbatim>\<open>obj.id = obj._id\<close> whether or not \<^verbatim>\<open>_id\<close> is present: the
  \<^verbatim>\<open>id\<close> becomes \<^verbatim>\<open>undefined\<close>.
\<close>

theorem handleSample_overwrites_id:
  "no_internal_id (JObj example_normalized) \<and> no_encoded_mask (JObj example_normalized) \<and>
   handleSample example_env example_normalized = Inr ([], [(''id'', JUndef)])"
  by (simp add: normalizer_defs example_env_def example_normalized_def
        no_internal_id_JObj no_encoded_mask_JObj in_table_def)

lemma example_plain_normalized:
  "handleSample example_env example_plain = Inr ([], example_plain')"
  by (simp add: normalizer_defs example_env_def example_plain_def example_plain'_def
        in_table_def inherited_key_def)

text \<open>
  Claim C7, amended. When \<^verbatim>\<open>handleSample\<close> returns (it answers \<open>Inl\<close> exactly where the
  code throws) on a sample that has no \<^verbatim>\<open>_id\<close> property and no textual \<^verbatim>\<open>mask\<close> at
  any depth, it returns no buffer, and the sample differs from what it was in \<^verbatim>\<open>id\<close>
  properties only: no other property of any object at any depth is added, removed,
  changed or moved. The sample itself has an \<^verbatim>\<open>id\<close> that is \<^verbatim>\<open>undefined\<close> afterwards,
  whether or not it had an \<^verbatim>\<open>id\<close> before. Of its other fields, one that holds a
  primitive value is unchanged, and one that holds an object is as \<open>label_without_id\<close>
  tells: a label of a kind of \<open>LABELS\<close> that is not list-valued has its \<^verbatim>\<open>id\<close> set to
  \<^verbatim>\<open>undefined\<close>; for a list-valued kind every element of the list has, while the
  container keeps the \<^verbatim>\<open>id\<close> it had; an object of no kind of \<open>LABELS\<close> is unchanged.
\<close>

theorem handleSample_without_ids:
  assumes h: "handleSample E s = Inr (bufs, s')"
    and ni: "no_internal_id (JObj s)" and ne: "no_encoded_mask (JObj s)"
  shows "bufs = [] \<and> strip_ids (JObj s') = strip_ids (JObj s) \<and>
     map_of s' ''id'' = Some JUndef \<and>
     (\<forall>f v. f \<noteq> ''id'' \<and> map_of s f = Some v \<and> is_primitive v \<longrightarrow> map_of s' f = Some v) \<and>
     (\<forall>f l cls. f \<noteq> ''id'' \<and> map_of s f = Some (JObj l) \<and>
        prop_key (obj_get l ''_cls'') = Inr cls \<longrightarrow>
        map_of s' f = Some (JObj (label_without_id E cls l)))"
proof -
  have clean: "\<forall>p\<in>set s. no_internal_id (snd p) \<and> no_encoded_mask (snd p)"
    using ni ne by (simp add: no_internal_id_JObj no_encoded_mask_JObj)
  have nokey: "\<forall>p\<in>set s. fst p \<noteq> ''_id''"
    using ni by (simp add: no_internal_id_JObj)
  have first: "bufs = [] \<and> strip_ids (JObj s') = strip_ids (JObj s) \<and>
     map_of s' ''id'' = Some JUndef"
    using h
  proof (cases rule: handleSample_cases)
    case (no_frames b1 s1)
    note c = handleLabels_clean [OF no_frames(1) clean]
    from c have st: "strip_ids (JObj s1) = strip_ids (JObj s)"
      by (intro strip_ids_JObj_cong) (elim conjE, assumption)+
    from c have "map fst s1 = map fst s" by simp
    then have k1: "\<forall>p\<in>set s1. fst p \<noteq> ''_id''" using nokey by (rule same_keys_no_key)
    from mapId_no_id [OF k1] no_frames(2) have s': "s' = obj_set s1 ''id'' JUndef" by simp
    then have "strip_ids (JObj s') = strip_ids (JObj s1)" by (simp only: strip_ids_obj_set_id)
    with s' st c no_frames(3) show ?thesis by (simp add: map_of_obj_set)
  next
    case (frames b1 s1 i xs b2 xs')
    note c = handleLabels_clean [OF frames(1) clean]
    from c have st: "strip_ids (JObj s1) = strip_ids (JObj s)"
      by (intro strip_ids_JObj_cong) (elim conjE, assumption)+
    from c have "map fst s1 = map fst s" by simp
    then have k1: "\<forall>p\<in>set s1. fst p \<noteq> ''_id''" using nokey by (rule same_keys_no_key)
    from frames(2) have "(''frames'', JArr i xs) \<in> set s1" by (rule obj_get_in_set) simp
    with c have "no_internal_id (JArr i xs) \<and> no_encoded_mask (JArr i xs)" by auto
    then have "\<forall>x\<in>set xs. no_internal_id x \<and> no_encoded_mask x"
      by (simp add: no_internal_id_JArr no_encoded_mask_JArr)
    from handleFrames_clean [OF frames(3) this]
    have b2: "b2 = []" and "strip_ids (JArr i xs') = strip_ids (JArr i xs)" by simp_all
    moreover from frames(2) have "map_of s1 ''frames'' = Some (JArr i xs)"
      by (rule obj_get_map_of_Some) simp
    ultimately have st2:
      "strip_ids (JObj (obj_set s1 ''frames'' (JArr i xs'))) = strip_ids (JObj s1)"
      by (intro strip_ids_obj_set)
    have k2: "\<forall>p\<in>set (obj_set s1 ''frames'' (JArr i xs')). fst p \<noteq> ''_id''"
      using k1 by (auto dest!: obj_set_keeps_keys)
    from mapId_no_id [OF k2] frames(4)
    have s': "s' = obj_set (obj_set s1 ''frames'' (JArr i xs')) ''id'' JUndef" by simp
    then have "strip_ids (JObj s') = strip_ids (JObj (obj_set s1 ''frames'' (JArr i xs')))"
      by (simp only: strip_ids_obj_set_id)
    with s' st st2 c b2 frames(5) show ?thesis by (simp add: map_of_obj_set)
  qed
  from h have rest: "(\<forall>f v. f \<noteq> ''id'' \<and> map_of s f = Some v \<and> is_primitive v \<longrightarrow>
        map_of s' f = Some v) \<and>
     (\<forall>f l cls. f \<noteq> ''id'' \<and> map_of s f = Some (JObj l) \<and>
        prop_key (obj_get l ''_cls'') = Inr cls \<longrightarrow>
        map_of s' f = Some (JObj (label_without_id E cls l)))"
  proof (cases rule: handleSample_fields)
    case (1 b1 s1)
    note s1 = 1(1) and others = 1(4)
    have key: "f \<noteq> ''_id''" if "map_of s f = Some v" for f v
      using that nokey by (auto dest!: map_of_SomeD)
    show ?thesis
    proof (intro conjI allI impI)
      fix f v
      assume a: "f \<noteq> ''id'' \<and> map_of s f = Some v \<and> is_primitive v"
      then have f: "f \<noteq> ''id''" and v: "map_of s f = Some v" and p: "is_primitive v"
        by simp_all
      from s1 v obtain b v' where
        hv: "handleLabel E v = Inr (b, v')" and v': "map_of s1 f = Some v'"
        by (rule handleLabels_field)
      from handleLabel_primitive [OF hv p] v' have m1: "map_of s1 f = Some v" by simp
      from p have "\<And>i xs. v \<noteq> JArr i xs" by (auto simp: is_primitive_def)
      with f key [OF v] m1 show "map_of s' f = Some v" by (rule others)
    next
      fix f l cls
      assume a: "f \<noteq> ''id'' \<and> map_of s f = Some (JObj l) \<and>
        prop_key (obj_get l ''_cls'') = Inr cls"
      then have f: "f \<noteq> ''id''" and l: "map_of s f = Some (JObj l)"
        and cls: "prop_key (obj_get l ''_cls'') = Inr cls"
        by simp_all
      from s1 l obtain b v' where
        hv: "handleLabel E (JObj l) = Inr (b, v')" and v': "map_of s1 f = Some v'"
        by (rule handleLabels_field)
      from l clean have cl: "no_internal_id (JObj l)" "no_encoded_mask (JObj l)"
        by (auto dest!: map_of_SomeD)
      from hv cl have "v' = JObj (label_without_id E cls l)"
      proof (cases rule: handleLabel_clean_obj)
        case (1 cls')
        with cls show ?thesis by simp
      qed
      with v' have m1: "map_of s1 f = Some (JObj (label_without_id E cls l))" by simp
      from f key [OF l] m1 show "map_of s' f = Some (JObj (label_without_id E cls l))"
        by (rule others) simp
    qed
  qed
  from first rest show ?thesis by (intro conjI) (elim conjE, assumption)+
qed

theorem handleSample_without_ids_witness:
  "handleSample example_env example_plain = Inr ([], example_plain') \<and>
   no_internal_id (JObj example_plain) \<and> no_encoded_mask (JObj example_plain) \<and>
   strip_ids (JObj example_plain') = strip_ids (JObj example_plain) \<and>
   map_of example_plain' ''id'' = Some JUndef \<and>
   map_of example_plain' ''filepath'' = Some (JStr ''a.mp4'') \<and>
   map_of example_plain' ''weather'' =
     Some (JObj [(''_cls'', JStr ''Classification''), (''label'', JStr ''sunny''),
                 (''id'', JUndef)]) \<and>
   map_of example_plain' ''objects'' =
     Some (JObj [(''_cls'', JStr ''Detections''), (''id'', JStr ''c''),
                 (''detections'',
                  JArr False [JObj [(''label'', JStr ''cat''), (''id'', JUndef)]])])"
proof -
  let ?weather = "[(''_cls'', JStr ''Classification''), (''label'', JStr ''sunny'')]"
  let ?objects = "[(''_cls'', JStr ''Detections''), (''id'', JStr ''c''),
    (''detections'', JArr False [JObj [(''label'', JStr ''cat'')]])]"
  have c: "no_internal_id (JObj example_plain)" "no_encoded_mask (JObj example_plain)"
    by (simp_all add: example_plain_def no_internal_id_JObj no_encoded_mask_JObj
          no_internal_id_JArr no_encoded_mask_JArr)
  note t = handleSample_without_ids [OF example_plain_normalized c]
  have p: "''filepath'' \<noteq> ''id'' \<and> map_of example_plain ''filepath'' = Some (JStr ''a.mp4'') \<and>
      is_primitive (JStr ''a.mp4'')"
    by (simp add: example_plain_def is_primitive_def)
  have q: "''weather'' \<noteq> ''id'' \<and> map_of example_plain ''weather'' = Some (JObj ?weather) \<and>
      prop_key (obj_get ?weather ''_cls'') = Inr ''Classification''"
    by (simp add: example_plain_def)
  have r: "''objects'' \<noteq> ''id'' \<and> map_of example_plain ''objects'' = Some (JObj ?objects) \<and>
      prop_key (obj_get ?objects ''_cls'') = Inr ''Detections''"
    by (simp add: example_plain_def)
  have lw: "label_without_id example_env ''Classification'' ?weather =
      [(''_cls'', JStr ''Classification''), (''label'', JStr ''sunny''), (''id'', JUndef)]"
    by (simp add: label_without_id_def example_env_def in_table_def
          object_prototype_names_def)
  have lo: "label_without_id example_env ''Detections'' ?objects =
      [(''_cls'', JStr ''Detections''), (''id'', JStr ''c''),
       (''detections'', JArr False [JObj [(''label'', JStr ''cat''), (''id'', JUndef)]])]"
    by (simp add: label_without_id_def example_env_def in_table_def clear_id_def)
  note a = t [THEN conjunct2, THEN conjunct1]
    t [THEN conjunct2, THEN conjunct2, THEN conjunct1]
  from t [THEN conjunct2, THEN conjunct2, THEN conjunct2, THEN conjunct1, rule_format, OF p]
  have b: "map_of example_plain' ''filepath'' = Some (JStr ''a.mp4'')" .
  from t [THEN conjunct2, THEN conjunct2, THEN conjunct2, THEN conjunct2, rule_format, OF q]
  have d: "map_of example_plain' ''weather'' =
     Some (JObj [(''_cls'', JStr ''Classification''), (''label'', JStr ''sunny''),
                 (''id'', JUndef)])"
    by (simp only: lw)
  from t [THEN conjunct2, THEN conjunct2, THEN conjunct2, THEN conjunct2, rule_format, OF r]
  have e: "map_of example_plain' ''objects'' =
     Some (JObj [(''_cls'', JStr ''Detections''), (''id'', JStr ''c''),
                 (''detections'',
                  JArr False [JObj [(''label'', JStr ''cat''), (''id'', JUndef)]])])"
    by (simp only: lo)
  from example_plain_normalized c a b d e show ?thesis by (intro conjI)
qed

section \<open>Properties of the worker session\<close>

subsection \<open>Dispatch and stale requests\<close>

lemma streamId_on_stream: "streamId (fst (on_stream E w i ev)) = streamId w"
  by (simp add: on_stream_def split: prod.splits)

lemma streamId_setStream: "streamId (fst (setStream E w m)) = Some (msg_uuid m)"
  by (simp add: setStream_def Let_def on_stream_def split: prod.splits option.splits)

text \<open>
  Claim C8. A \<^verbatim>\<open>requestFrameChunk\<close> message whose \<^verbatim>\<open>uuid\<close> is not the current
  \<^verbatim>\<open>streamId\<close> changes nothing and causes nothing: no read, no fetch, no message. After
  \<^verbatim>\<open>setStream\<close> with session id \<open>B\<close> the current id is \<open>B\<close> (lemma
  \<open>streamId_setStream\<close>), so every request that carries another id is ignored.
\<close>

theorem requestFrameChunk_stale_ignored:
  assumes "msg_method m = ''requestFrameChunk''" and "streamId w \<noteq> Some (msg_uuid m)"
  shows "onmessage E w m = Inr (w, []) \<and> worker_step E w (Message m) = (w, [])"
proof -
  from assms(2) have "requestFrameChunk E w m = (w, [])"
    by (auto simp: requestFrameChunk_def)
  with assms(1) show ?thesis by (simp add: onmessage_def)
qed

theorem requestFrameChunk_stale_ignored_witness:
  "streamId (fst (setStream example_env initial_worker (example_message ''setStream'' ''B'')))
     = Some ''B'' \<and>
   onmessage example_env
     (fst (setStream example_env initial_worker (example_message ''setStream'' ''B'')))
     (example_message ''requestFrameChunk'' ''A'') =
   Inr (fst (setStream example_env initial_worker (example_message ''setStream'' ''B'')), [])"
proof -
  let ?w = "fst (setStream example_env initial_worker (example_message ''setStream'' ''B''))"
  have id: "streamId ?w = Some ''B''"
    by (simp add: streamId_setStream example_message_def)
  have u: "msg_uuid (example_message ''requestFrameChunk'' ''A'') = ''A''"
    by (simp add: example_message_def)
  have "msg_method (example_message ''requestFrameChunk'' ''A'') = ''requestFrameChunk''"
    and "streamId ?w \<noteq> Some (msg_uuid (example_message ''requestFrameChunk'' ''A''))"
    by (simp add: example_message_def) (simp only: id u, simp)
  from requestFrameChunk_stale_ignored [OF this] id show ?thesis by simp
qed

text \<open>
  Claim C9. \<^verbatim>\<open>onmessage\<close> throws \<^verbatim>\<open>Error("unknown method")\<close> exactly when the method tag
  is none of the four recognized ones: an unknown method is never ignored, and a
  recognized one never takes the default branch.
\<close>

theorem onmessage_unknown_method:
  "(onmessage E w m = Inl (Error ''unknown method'')) =
   (msg_method m \<notin> {''processSample'', ''requestFrameChunk'', ''setStream'',
                     ''requestSourceSample''})"
  by (simp add: onmessage_def processSample_def split: sum.splits prod.splits)

theorem onmessage_unknown_method_witness:
  "onmessage example_env initial_worker (example_message ''reset'' ''A'') =
     Inl (Error ''unknown method'') \<and>
   onmessage example_env initial_worker (example_message ''requestSourceSample'' ''A'') =
     Inr (initial_worker, [FetchSample ''u'' ''s'' ''A''])"
proof -
  have "msg_method (example_message ''reset'' ''A'') \<notin>
      {''processSample'', ''requestFrameChunk'', ''setStream'', ''requestSourceSample''}"
    by (simp add: example_message_def)
  with onmessage_unknown_method [of example_env initial_worker "example_message ''reset'' ''A''"]
  have "onmessage example_env initial_worker (example_message ''reset'' ''A'') =
     Inl (Error ''unknown method'')" by simp
  moreover have "onmessage example_env initial_worker
      (example_message ''requestSourceSample'' ''A'') =
     Inr (initial_worker, [FetchSample ''u'' ''s'' ''A''])"
    by (simp add: onmessage_def requestSourceSample_def example_message_def)
  ultimately show ?thesis by simp
qed

subsection \<open>Evaluating runs\<close>

lemmas stream_defs =
  createReader_def can_close_or_enqueue_def should_call_pull_def stream_close_def
  controller_close_def controller_error_def next_request_def pull_def
  call_pull_if_needed_def pull_fulfilled_def controller_enqueue_def fetch_response_def
  fetch_failure_def reader_read_def stream_start_def stream_cancel_def HIGH_WATER_MARK_def

lemmas worker_defs =
  initial_worker_def getSendChunk_def on_stream_def deliver_all_def requestFrameChunk_def setStream_def
  onmessage_def handleFrames_def

lemma example_superseded_reached:
  "worker_run example_env initial_worker
     [Message (example_message ''setStream'' ''A''),
      Message (example_message ''setStream'' ''B'')] =
   (example_superseded, [FetchFrames 0 (example_request 0), FetchFrames 1 (example_request 0)])"
  by (simp add: worker_defs stream_defs example_message_def example_env_def
        example_superseded_def example_stream_def example_request_def Let_def)

lemma deliver_all_simps:
  "deliver_all E i [] = []"
  "deliver_all E i (e # es) = deliver E i e @ deliver_all E i es"
  "deliver_all E i (es @ es') = deliver_all E i es @ deliver_all E i es'"
  by (simp_all add: deliver_all_def)

lemma deliver_done: "deliver_all E i (map (\<lambda>u. ReadResult u None) us) = []"
  by (induction us) (simp_all add: deliver_all_simps getSendChunk_def)

lemma deliver_rejected: "deliver_all E i (map ReadRejected us) = []"
  by (induction us) (simp_all add: deliver_all_simps)

lemma cancelled_pull_quiet:
  "cancelled s \<Longrightarrow> deliver_all E i (snd (pull s)) = []"
  by (simp add: pull_def controller_close_def stream_close_def controller_error_def Let_def
        deliver_done deliver_rejected deliver_all_simps split: prod.splits)

lemma cancelled_call_pull_quiet:
  "cancelled s \<Longrightarrow> deliver_all E i (snd (call_pull_if_needed s)) = []"
  by (simp add: call_pull_if_needed_def cancelled_pull_quiet deliver_all_simps)

lemma cancelled_call_pull: "cancelled (fst (call_pull_if_needed s)) = cancelled s"
  by (simp add: call_pull_if_needed_def pull_def controller_close_def stream_close_def
        controller_error_def Let_def split: prod.splits)

lemma cancelled_pull_fulfilled_quiet:
  "cancelled s \<Longrightarrow> deliver_all E i (snd (pull_fulfilled s)) = []"
  by (simp add: pull_fulfilled_def Let_def cancelled_call_pull_quiet deliver_all_simps)

section \<open>Properties of the chunked frame source\<close>

subsection \<open>Cancellation\<close>

lemma fetches_append: "fetches (xs @ ys) = fetches xs @ fetches ys"
  by (induction xs rule: fetches.induct) simp_all

lemma fetches_done: "fetches (map (\<lambda>u. ReadResult u None) us) = []"
  by (induction us) simp_all

lemma fetches_rejected: "fetches (map ReadRejected us) = []"
  by (induction us) simp_all

lemma cancelled_pull:
  "cancelled s \<Longrightarrow> fetches (snd (pull s)) = [] \<and> cancelled (fst (pull s))"
  by (simp add: pull_def controller_close_def stream_close_def controller_error_def Let_def
        fetches_done fetches_rejected)

lemma cancelled_call_pull_if_needed:
  "cancelled s \<Longrightarrow>
   fetches (snd (call_pull_if_needed s)) = [] \<and> cancelled (fst (call_pull_if_needed s))"
  by (simp add: call_pull_if_needed_def cancelled_pull)

lemma cancelled_pull_fulfilled:
  "cancelled s \<Longrightarrow> fetches (snd (pull_fulfilled s)) = [] \<and> cancelled (fst (pull_fulfilled s))"
  by (simp add: pull_fulfilled_def Let_def cancelled_call_pull_if_needed)

lemma cancelled_controller_enqueue:
  "cancelled s \<Longrightarrow>
   fetches (snd (controller_enqueue s chunk)) = [] \<and> cancelled (fst (controller_enqueue s chunk))"
  by (cases "readRequests s")
     (simp_all add: controller_enqueue_def case_prod_beta cancelled_call_pull_if_needed)

lemma cancelled_controller_error:
  "cancelled s \<Longrightarrow>
   fetches (snd (controller_error s)) = [] \<and> cancelled (fst (controller_error s))"
  by (simp add: controller_error_def fetches_rejected)

lemma cancelled_fetch_response:
  assumes "cancelled s"
  shows "fetches (snd (fetch_response s chunk)) = [] \<and> cancelled (fst (fetch_response s chunk))"
proof (cases "inflight s")
  case Nil
  with assms show ?thesis by (simp add: fetch_response_def)
next
  case (Cons req rest)
  let ?sa = "s\<lparr>inflight := rest\<rparr>"
  have a: "cancelled ?sa" using assms by simp
  show ?thesis
  proof (cases "can_close_or_enqueue ?sa")
    case False
    with Cons cancelled_controller_error [OF a] show ?thesis
      by (simp add: fetch_response_def)
  next
    case True
    let ?e = "controller_enqueue ?sa chunk"
    let ?sb = "(fst ?e)\<lparr>frameNumber := snd (range chunk) + 1\<rparr>"
    from cancelled_controller_enqueue [OF a, of chunk]
    have e: "fetches (snd ?e) = []" and b: "cancelled ?sb" by simp_all
    from cancelled_pull_fulfilled [OF b] e Cons True show ?thesis
      by (simp add: fetch_response_def case_prod_beta Let_def fetches_append)
  qed
qed

lemma cancelled_fetch_failure:
  "cancelled s \<Longrightarrow> fetches (snd (fetch_failure s)) = [] \<and> cancelled (fst (fetch_failure s))"
  by (cases "inflight s") (simp_all add: fetch_failure_def cancelled_controller_error)

lemma cancelled_reader_read:
  assumes "cancelled s"
  shows "fetches (snd (reader_read s uuid)) = [] \<and> cancelled (fst (reader_read s uuid))"
proof (cases "state s")
  case Readable
  show ?thesis
  proof (cases "queue s")
    case Nil
    with Readable assms cancelled_call_pull_if_needed [of "s\<lparr>readRequests := readRequests s @ [uuid]\<rparr>"]
    show ?thesis by (simp add: reader_read_def)
  next
    case (Cons chunk rest)
    with Readable assms cancelled_call_pull_if_needed [of "s\<lparr>queue := rest\<rparr>"]
    show ?thesis
      by (simp add: reader_read_def case_prod_beta Let_def fetches_append stream_close_def
            fetches_done)
  qed
qed (use assms in \<open>simp_all add: reader_read_def\<close>)

lemma cancelled_stream_step:
  "cancelled s \<Longrightarrow>
   fetches (snd (stream_step s ev)) = [] \<and> cancelled (fst (stream_step s ev))"
  by (cases ev)
     (simp_all add: cancelled_reader_read cancelled_fetch_response cancelled_fetch_failure
        stream_start_def cancelled_call_pull_if_needed stream_cancel_def)

lemma cancelled_stream_run:
  "cancelled s \<Longrightarrow>
   fetches (snd (stream_run s evs)) = [] \<and> cancelled (fst (stream_run s evs))"
proof (induction evs arbitrary: s)
  case Nil
  then show ?case by simp
next
  case (Cons ev evs)
  from cancelled_stream_step [OF Cons.prems, of ev]
  have "fetches (snd (stream_step s ev)) = []" "cancelled (fst (stream_step s ev))" by simp_all
  with Cons.IH [of "fst (stream_step s ev)"] show ?case
    by (simp add: case_prod_beta fetches_append)
qed

lemma delivered_append: "delivered (xs @ ys) = delivered xs @ delivered ys"
  by (induction xs rule: delivered.induct) simp_all

lemma delivered_done: "delivered (map (\<lambda>u. ReadResult u None) us) = []"
  by (induction us) simp_all

lemma delivered_rejected: "delivered (map ReadRejected us) = []"
  by (induction us) simp_all

lemma closing_step:
  assumes "closing s"
  shows "closing (fst (stream_step s ev)) \<and> fetches (snd (stream_step s ev)) = [] \<and>
     delivered (snd (stream_step s ev)) @ queue (fst (stream_step s ev)) = queue s \<and>
     length (queue (fst (stream_step s ev))) = length (queue s) - reads [ev]"
proof (cases ev)
  case Start
  with assms show ?thesis
    by (auto simp: closing_def stream_start_def call_pull_if_needed_def should_call_pull_def
          can_close_or_enqueue_def)
next
  case (Read uuid)
  show ?thesis
  proof (cases "state s")
    case Readable
    with assms obtain chunk rest where q: "queue s = chunk # rest"
      by (cases "queue s") (auto simp: closing_def)
    with assms Readable Read show ?thesis
      by (auto simp: closing_def reader_read_def stream_close_def call_pull_if_needed_def
            should_call_pull_def can_close_or_enqueue_def Let_def)
  qed (use assms Read in \<open>auto simp: closing_def reader_read_def\<close>)
next
  case (Response chunk)
  with assms show ?thesis by (auto simp: closing_def fetch_response_def)
next
  case Failure
  with assms show ?thesis by (auto simp: closing_def fetch_failure_def)
next
  case Cancel
  with assms show ?thesis by (auto simp: closing_def stream_cancel_def)
qed

lemma closing_run:
  assumes "closing s"
  shows "closing (fst (stream_run s evs)) \<and> fetches (snd (stream_run s evs)) = [] \<and>
     delivered (snd (stream_run s evs)) @ queue (fst (stream_run s evs)) = queue s \<and>
     length (queue (fst (stream_run s evs))) = length (queue s) - reads evs"
  using assms
proof (induction evs arbitrary: s)
  case Nil
  then show ?case by simp
next
  case (Cons ev evs)
  let ?s1 = "fst (stream_step s ev)"
  from closing_step [OF Cons.prems, of ev]
  have 1: "closing ?s1" "fetches (snd (stream_step s ev)) = []"
    "delivered (snd (stream_step s ev)) @ queue ?s1 = queue s"
    "length (queue ?s1) = length (queue s) - reads [ev]"
    by simp_all
  from Cons.IH [OF 1(1)]
  have 2: "closing (fst (stream_run ?s1 evs))" "fetches (snd (stream_run ?s1 evs)) = []"
    "delivered (snd (stream_run ?s1 evs)) @ queue (fst (stream_run ?s1 evs)) = queue ?s1"
    "length (queue (fst (stream_run ?s1 evs))) = length (queue ?s1) - reads evs"
    by simp_all
  have r: "reads (ev # evs) = reads [ev] + reads evs" by (cases ev) simp_all
  from 1 2 r show ?case
    by (simp add: case_prod_beta fetches_append delivered_append)
qed

lemma pull_cancelled_closing:
  assumes "cancelled t" "can_close_or_enqueue t" "inflight t = []"
    "readRequests t = [] \<or> queue t = []"
  shows "closing (fst (pull t)) \<and> queue (fst (pull t)) = queue t \<and>
     fetches (snd (pull t)) = [] \<and> delivered (snd (pull t)) = [] \<and>
     (state (fst (pull t)) = Closed) = (queue t = [])"
  using assms
  by (auto simp: pull_def controller_close_def stream_close_def closing_def
        can_close_or_enqueue_def Let_def fetches_done delivered_done)

text \<open>
  Claim C4, as stated, fails where it says that the pull after a cancel ends the
  sequence by closing the stream. The example stream starts, its first response is
  buffered and a second fetch goes out; the source is cancelled; the second response
  arrives and is buffered too. The pull that follows finds the flag set, issues no
  fetch and calls \<^verbatim>\<open>controller.close()\<close>: but the stream is still readable, and the next
  two reads are answered with chunks, the second of which arrived after the cancel.
  Only the third read is answered with \<^verbatim>\<open>done\<close>.
\<close>

theorem cancelled_stream_still_delivers:
  "fst (stream_run example_stream
     [Start, Response (example_chunk 0 1), Cancel, Response (example_chunk 2 3)]) =
     example_cancelled \<and>
   cancelled example_cancelled \<and> closeRequested example_cancelled \<and>
   state example_cancelled = Readable \<and>
   snd (stream_run example_stream
     [Start, Response (example_chunk 0 1), Cancel, Response (example_chunk 2 3),
      Read ''A'', Read ''A'', Read ''A'']) =
     [Fetch (example_request 0), Fetch (example_request 2),
      ReadResult ''A'' (Some (example_chunk 0 1)),
      ReadResult ''A'' (Some (example_chunk 2 3)),
      ReadResult ''A'' None]"
  by (simp add: stream_defs example_stream_def example_cancelled_def example_chunk_def
        example_request_def Let_def)

text \<open>
  Claim C4, amended. From the moment \<^verbatim>\<open>cancel\<close> is invoked on a source, in whatever
  state, the flag stays set and no event whatsoever (start, read, response, failure)
  makes the source issue a fetch. When the controller then calls the \<^verbatim>\<open>pull\<close>
  callback (the stream can be closed, no fetch is pending, and reads wait only while
  nothing is buffered), the callback issues no fetch, answers no read with a chunk and
  requests the close of the stream: the stream is closed at once if nothing is
  buffered; otherwise the buffered chunks stay, and in every continuation the reads
  are answered with exactly these chunks, in order, nothing is fetched or added, and
  the stream is closed as soon as as many reads were made as chunks were buffered.
\<close>

theorem cancel_ends_the_sequence:
  "let t = fst (stream_run s (Cancel # evs)) in
     cancelled t \<and> fetches (snd (stream_run s (Cancel # evs))) = [] \<and>
     (can_close_or_enqueue t \<and> inflight t = [] \<and> (readRequests t = [] \<or> queue t = []) \<longrightarrow>
        (let u = fst (pull t) in
           fetches (snd (pull t)) = [] \<and> delivered (snd (pull t)) = [] \<and>
           closeRequested u \<and> queue u = queue t \<and> (state u = Closed) = (queue t = []) \<and>
           (\<forall>evs'. fetches (snd (stream_run u evs')) = [] \<and>
              delivered (snd (stream_run u evs')) @ queue (fst (stream_run u evs')) = queue t \<and>
              (length (queue t) \<le> reads evs' \<longrightarrow>
                 state (fst (stream_run u evs')) = Closed))))"
proof -
  let ?t = "fst (stream_run s (Cancel # evs))"
  have c: "cancelled (stream_cancel s)" by (simp add: stream_cancel_def)
  from cancelled_stream_run [OF c, of evs]
  have a: "cancelled ?t" "fetches (snd (stream_run s (Cancel # evs))) = []"
    by (simp_all add: case_prod_beta)
  have b: "fetches (snd (pull ?t)) = [] \<and> delivered (snd (pull ?t)) = [] \<and>
      closeRequested (fst (pull ?t)) \<and> queue (fst (pull ?t)) = queue ?t \<and>
      (state (fst (pull ?t)) = Closed) = (queue ?t = []) \<and>
      (\<forall>evs'. fetches (snd (stream_run (fst (pull ?t)) evs')) = [] \<and>
         delivered (snd (stream_run (fst (pull ?t)) evs')) @
           queue (fst (stream_run (fst (pull ?t)) evs')) = queue ?t \<and>
         (length (queue ?t) \<le> reads evs' \<longrightarrow>
            state (fst (stream_run (fst (pull ?t)) evs')) = Closed))"
    if h: "can_close_or_enqueue ?t \<and> inflight ?t = [] \<and> (readRequests ?t = [] \<or> queue ?t = [])"
  proof -
    from h have "can_close_or_enqueue ?t" "inflight ?t = []"
      "readRequests ?t = [] \<or> queue ?t = []" by simp_all
    note p = pull_cancelled_closing [OF a(1) this]
    from p have cl: "closing (fst (pull ?t))" and q: "queue (fst (pull ?t)) = queue ?t"
      by simp_all
    have r: "fetches (snd (stream_run (fst (pull ?t)) evs')) = [] \<and>
         delivered (snd (stream_run (fst (pull ?t)) evs')) @
           queue (fst (stream_run (fst (pull ?t)) evs')) = queue ?t \<and>
         (length (queue ?t) \<le> reads evs' \<longrightarrow>
            state (fst (stream_run (fst (pull ?t)) evs')) = Closed)" for evs'
      using closing_run [OF cl, of evs'] q by (auto simp: closing_def)
    from p cl r show ?thesis by (simp add: closing_def)
  qed
  from a b show ?thesis by (simp only: Let_def) blast
qed

theorem cancel_ends_the_sequence_witness:
  "cancelled (stream_cancel example_prefetched) \<and>
   can_close_or_enqueue (stream_cancel example_prefetched) \<and>
   inflight (stream_cancel example_prefetched) = [] \<and>
   readRequests (stream_cancel example_prefetched) = [] \<and>
   fst (pull (stream_cancel example_prefetched)) = example_cancelled \<and>
   state example_cancelled = Readable \<and>
   fetches (snd (stream_run example_cancelled [Read ''A'', Read ''A''])) = [] \<and>
   delivered (snd (stream_run example_cancelled [Read ''A'', Read ''A''])) @
     queue (fst (stream_run example_cancelled [Read ''A'', Read ''A''])) =
     [example_chunk 0 1, example_chunk 2 3] \<and>
   state (fst (stream_run example_cancelled [Read ''A'', Read ''A''])) = Closed"
proof -
  have t: "fst (stream_run example_prefetched (Cancel # [])) = stream_cancel example_prefetched"
    by simp
  have h: "can_close_or_enqueue (stream_cancel example_prefetched) \<and>
      inflight (stream_cancel example_prefetched) = [] \<and>
      (readRequests (stream_cancel example_prefetched) = [] \<or>
       queue (stream_cancel example_prefetched) = [])"
    by (simp add: stream_defs example_prefetched_def example_stream_def)
  have u: "fst (pull (stream_cancel example_prefetched)) = example_cancelled"
    by (simp add: stream_defs example_prefetched_def example_cancelled_def
          example_stream_def Let_def)
  have q: "queue (stream_cancel example_prefetched) = [example_chunk 0 1, example_chunk 2 3]"
    "readRequests (stream_cancel example_prefetched) = []"
    "state example_cancelled = Readable"
    "reads [Read ''A'', Read ''A''] = 2"
    by (simp_all add: stream_defs example_prefetched_def example_cancelled_def
          example_stream_def)
  note c = cancel_ends_the_sequence [of example_prefetched "[]", unfolded Let_def t]
  from c have c1: "cancelled (stream_cancel example_prefetched)" by (rule conjunct1)
  from c [THEN conjunct2, THEN conjunct2, rule_format, OF h]
  have "\<forall>evs'. fetches (snd (stream_run example_cancelled evs')) = [] \<and>
      delivered (snd (stream_run example_cancelled evs')) @
        queue (fst (stream_run example_cancelled evs')) =
        [example_chunk 0 1, example_chunk 2 3] \<and>
      (length [example_chunk 0 1, example_chunk 2 3] \<le> reads evs' \<longrightarrow>
         state (fst (stream_run example_cancelled evs')) = Closed)"
    unfolding u q(1) by (elim conjE)
  from this [rule_format, of "[Read ''A'', Read ''A'']"] q(4)
  have r: "fetches (snd (stream_run example_cancelled [Read ''A'', Read ''A''])) = []"
    "delivered (snd (stream_run example_cancelled [Read ''A'', Read ''A''])) @
       queue (fst (stream_run example_cancelled [Read ''A'', Read ''A''])) =
       [example_chunk 0 1, example_chunk 2 3]"
    "state (fst (stream_run example_cancelled [Read ''A'', Read ''A''])) = Closed"
    by simp_all
  from c1 h u q(2,3) r show ?thesis by (intro conjI) (elim conjE, assumption)+
qed

subsection \<open>Backpressure\<close>

lemmas effect_simps =
  fetches_append fetches_done fetches_rejected delivered_append delivered_done
  delivered_rejected

lemmas stream_defs2 =
  can_close_or_enqueue_def should_call_pull_def stream_close_def
  controller_close_def controller_error_def pull_def
  call_pull_if_needed_def pull_fulfilled_def controller_enqueue_def fetch_response_def
  fetch_failure_def reader_read_def stream_start_def stream_cancel_def HIGH_WATER_MARK_def

lemma counted_inv_call_pull:
  assumes "counted_inv s F D R"
  shows "counted_inv (fst (call_pull_if_needed s))
           (F + length (fetches (snd (call_pull_if_needed s))))
           (D + length (delivered (snd (call_pull_if_needed s)))) R"
  using assms
  by (auto simp: counted_inv_def stream_inv_def stream_defs2 Let_def effect_simps
           split: if_splits)

lemma counted_inv_start:
  assumes "counted_inv s F D R"
  shows "counted_inv (fst (stream_start s))
           (F + length (fetches (snd (stream_start s))))
           (D + length (delivered (snd (stream_start s)))) R"
  using assms
  by (auto simp: counted_inv_def stream_inv_def stream_defs2 Let_def effect_simps
           split: if_splits)

lemma counted_inv_read:
  assumes "counted_inv s F D R"
  shows "counted_inv (fst (reader_read s uuid))
           (F + length (fetches (snd (reader_read s uuid))))
           (D + length (delivered (snd (reader_read s uuid)))) (Suc R)"
proof (cases "state s")
  case Readable
  show ?thesis
  proof (cases "queue s")
    case Nil
    let ?sa = "s\<lparr>readRequests := readRequests s @ [uuid]\<rparr>"
    have "counted_inv ?sa F D (Suc R)"
      using assms Nil by (simp add: counted_inv_def stream_inv_def can_close_or_enqueue_def)
    from counted_inv_call_pull [OF this] Readable Nil show ?thesis
      by (simp add: reader_read_def)
  next
    case (Cons chunk rest)
    let ?sa = "s\<lparr>queue := rest\<rparr>"
    have a: "counted_inv ?sa F (Suc D) (Suc R)" and rr: "readRequests s = []"
      using assms Cons Readable
      by (auto simp: counted_inv_def stream_inv_def can_close_or_enqueue_def)
    show ?thesis
    proof (cases "closeRequested ?sa \<and> rest = []")
      case True
      have "counted_inv (fst (stream_close ?sa)) F (Suc D) (Suc R)"
        using a True rr
        by (auto simp: counted_inv_def stream_inv_def can_close_or_enqueue_def stream_close_def)
      with Readable Cons True rr show ?thesis
        by (simp add: reader_read_def Let_def case_prod_beta effect_simps stream_close_def)
    next
      case False
      from counted_inv_call_pull [OF a] Readable Cons False show ?thesis
        by (auto simp: reader_read_def Let_def case_prod_beta effect_simps)
    qed
  qed
next
  case Closed
  with assms show ?thesis
    by (simp add: reader_read_def counted_inv_def)
next
  case Errored
  with assms show ?thesis
    by (simp add: reader_read_def counted_inv_def)
qed

lemma counted_inv_failure:
  assumes "counted_inv s F D R"
  shows "counted_inv (fst (fetch_failure s))
           (F + length (fetches (snd (fetch_failure s))))
           (D + length (delivered (snd (fetch_failure s)))) R"
  using assms
  by (auto simp: counted_inv_def stream_inv_def stream_defs2 Let_def effect_simps
           split: if_splits list.splits)

lemma counted_inv_cancel:
  assumes "counted_inv s F D R"
  shows "counted_inv (stream_cancel s) F D R"
  using assms
  by (auto simp: counted_inv_def stream_inv_def stream_defs2)

lemma counted_inv_frameNumber:
  "counted_inv (s\<lparr>frameNumber := n\<rparr>) F D R = counted_inv s F D R"
  by (simp add: counted_inv_def stream_inv_def can_close_or_enqueue_def)

lemma counted_inv_enqueue:
  assumes "counted_inv s F D R" "inflight s = req # rest"
  shows "counted_inv (fst (controller_enqueue (s\<lparr>inflight := rest\<rparr>) chunk)) F
           (D + length (delivered (snd (controller_enqueue (s\<lparr>inflight := rest\<rparr>) chunk)))) R \<and>
         fetches (snd (controller_enqueue (s\<lparr>inflight := rest\<rparr>) chunk)) = [] \<and>
         inflight (fst (controller_enqueue (s\<lparr>inflight := rest\<rparr>) chunk)) = [] \<and>
         can_close_or_enqueue (s\<lparr>inflight := rest\<rparr>)"
proof -
  from assms have f: "rest = []" "pulling s" "can_close_or_enqueue s"
    by (auto simp: counted_inv_def stream_inv_def)
  show ?thesis
  proof (cases "readRequests s")
    case Nil
    with assms f show ?thesis
      by (auto simp: counted_inv_def stream_inv_def controller_enqueue_def
            call_pull_if_needed_def can_close_or_enqueue_def HIGH_WATER_MARK_def)
  next
    case (Cons uuid rs)
    with assms f show ?thesis
      by (auto simp: counted_inv_def stream_inv_def controller_enqueue_def
            call_pull_if_needed_def can_close_or_enqueue_def HIGH_WATER_MARK_def)
  qed
qed

lemma counted_inv_pull_fulfilled:
  assumes "counted_inv s F D R" "inflight s = []"
  shows "counted_inv (fst (pull_fulfilled s))
           (F + length (fetches (snd (pull_fulfilled s))))
           (D + length (delivered (snd (pull_fulfilled s)))) R"
proof -
  have a: "counted_inv (s\<lparr>pulling := False, pullAgain := b\<rparr>) F D R" for b
    using assms by (simp add: counted_inv_def stream_inv_def can_close_or_enqueue_def)
  have a': "counted_inv (s\<lparr>pulling := False\<rparr>) F D R"
    using assms by (simp add: counted_inv_def stream_inv_def can_close_or_enqueue_def)
  show ?thesis
  proof (cases "pullAgain s")
    case True
    with counted_inv_call_pull [OF a [of False]] show ?thesis
      by (simp add: pull_fulfilled_def Let_def)
  next
    case False
    with a' show ?thesis
      by (simp add: pull_fulfilled_def Let_def)
  qed
qed

lemma counted_inv_response:
  assumes "counted_inv s F D R"
  shows "counted_inv (fst (fetch_response s chunk))
           (F + length (fetches (snd (fetch_response s chunk))))
           (D + length (delivered (snd (fetch_response s chunk)))) R"
proof (cases "inflight s")
  case Nil
  with assms show ?thesis by (simp add: fetch_response_def)
next
  case (Cons req rest)
  let ?e = "controller_enqueue (s\<lparr>inflight := rest\<rparr>) chunk"
  let ?sb = "(fst ?e)\<lparr>frameNumber := snd (range chunk) + 1\<rparr>"
  note e = counted_inv_enqueue [OF assms Cons, of chunk]
  from e have b: "counted_inv ?sb F (D + length (delivered (snd ?e))) R" "inflight ?sb = []"
    by (simp_all add: counted_inv_frameNumber)
  from counted_inv_pull_fulfilled [OF b] e Cons show ?thesis
    by (simp add: fetch_response_def case_prod_beta Let_def effect_simps add.assoc)
qed

lemma counted_inv_step:
  assumes "counted_inv s F D R"
  shows "counted_inv (fst (stream_step s ev))
           (F + length (fetches (snd (stream_step s ev))))
           (D + length (delivered (snd (stream_step s ev)))) (R + reads [ev])"
  using assms
  by (cases ev)
     (simp_all add: counted_inv_start counted_inv_read counted_inv_response
        counted_inv_failure counted_inv_cancel)

lemma counted_inv_run:
  assumes "counted_inv s F D R"
  shows "counted_inv (fst (stream_run s evs))
           (F + length (fetches (snd (stream_run s evs))))
           (D + length (delivered (snd (stream_run s evs)))) (R + reads evs)"
  using assms
proof (induction evs arbitrary: s F D R)
  case Nil
  then show ?case by simp
next
  case (Cons ev evs)
  have r: "reads (ev # evs) = reads [ev] + reads evs" by (cases ev) simp_all
  from Cons.IH [OF counted_inv_step [OF Cons.prems, of ev]] show ?case
    by (simp add: case_prod_beta effect_simps add.assoc r)
qed

lemma counted_inv_createReader: "counted_inv (createReader c n k sid src u) 0 0 0"
  by (simp add: counted_inv_def stream_inv_def createReader_def HIGH_WATER_MARK_def)

text \<open>
  Claim C5, as stated, fails in its last part. One read is made, the stream starts and
  the response of its first fetch arrives: the chunk answers the read, and the stream,
  whose queue is below the high water mark, pulls again at once. A second fetch is
  pending although no read is, and only one read was ever made.
\<close>

theorem fetch_without_pending_read:
  "snd (stream_run example_stream [Read ''A'', Start, Response (example_chunk 0 1)]) =
     [Fetch (example_request 0), ReadResult ''A'' (Some (example_chunk 0 1)),
      Fetch (example_request 2)] \<and>
   reads [Read ''A'', Start, Response (example_chunk 0 1)] = 1 \<and>
   readRequests (fst (stream_run example_stream
     [Read ''A'', Start, Response (example_chunk 0 1)])) = [] \<and>
   inflight (fst (stream_run example_stream
     [Read ''A'', Start, Response (example_chunk 0 1)])) = [example_request 2]"
  by (simp add: stream_defs example_stream_def example_request_def example_chunk_def Let_def)

text \<open>
  Claim C5, amended. In every state a reader reaches from \<^verbatim>\<open>createReader\<close>, whatever
  the events, at most one fetch is pending and the queue holds at most
  \<open>HIGH_WATER_MARK\<close> chunks; fetches are issued ahead of the reads, but only within
  the look-ahead: the fetches issued so far exceed the reads made so far by at most
  \<open>HIGH_WATER_MARK\<close>.
\<close>

theorem stream_bounds:
  "length (inflight (fst (stream_run (createReader c n k sid src u) evs))) \<le> 1 \<and>
   length (queue (fst (stream_run (createReader c n k sid src u) evs))) \<le> HIGH_WATER_MARK \<and>
   length (fetches (snd (stream_run (createReader c n k sid src u) evs))) \<le>
     reads evs + HIGH_WATER_MARK"
  using counted_inv_run [OF counted_inv_createReader, of c n k sid src u evs]
  by (simp add: counted_inv_def stream_inv_def)

theorem stream_bounds_witness:
  "length (inflight (fst (stream_run example_stream
     [Read ''A'', Start, Response (example_chunk 0 1)]))) \<le> 1 \<and>
   length (queue (fst (stream_run example_stream
     [Read ''A'', Start, Response (example_chunk 0 1)]))) \<le> HIGH_WATER_MARK \<and>
   length (fetches (snd (stream_run example_stream
     [Read ''A'', Start, Response (example_chunk 0 1)]))) \<le> 1 + HIGH_WATER_MARK"
  using stream_bounds [of 2 5 0 "''s''" False "''u''"
      "[Read ''A'', Start, Response (example_chunk 0 1)]"]
  by (simp add: example_stream_def)

subsection \<open>Order of the chunks\<close>

lemma chain_iff: "chain n rs m = (chain_end n rs = Some m)"
  by (induction n rs rule: chain_end.induct) auto

lemma chain_end_append:
  "chain_end n (xs @ ys) = (case chain_end n xs of None \<Rightarrow> None | Some k \<Rightarrow> chain_end k ys)"
  by (induction n xs rule: chain_end.induct) auto

lemma done_delivered_append:
  "done_delivered (xs @ ys) = (done_delivered xs \<or> done_delivered ys)"
  by (induction xs rule: done_delivered.induct) simp_all

lemma done_delivered_done: "done_delivered (map (\<lambda>u. ReadResult u None) us) = (us \<noteq> [])"
  by (cases us) simp_all

lemma ordered_inv_call_pull:
  assumes "ordered_inv F s dr dn"
  shows "ordered_inv F (fst (call_pull_if_needed s)) dr
           (dn \<or> done_delivered (snd (call_pull_if_needed s))) \<and>
         delivered (snd (call_pull_if_needed s)) = []"
  using assms
  by (auto simp: ordered_inv_def stream_inv_def stream_defs2 next_request_def Let_def
        effect_simps done_delivered_done split: if_splits)

lemma ordered_inv_start:
  assumes "ordered_inv F s dr dn"
  shows "ordered_inv F (fst (stream_start s)) dr (dn \<or> done_delivered (snd (stream_start s))) \<and>
         delivered (snd (stream_start s)) = []"
proof (cases "started s")
  case True
  with assms show ?thesis by (simp add: stream_start_def)
next
  case False
  have "ordered_inv F (s\<lparr>started := True\<rparr>) dr dn"
    using assms
    by (auto simp: ordered_inv_def stream_inv_def can_close_or_enqueue_def next_request_def)
  from ordered_inv_call_pull [OF this] False show ?thesis
    by (simp add: stream_start_def)
qed

lemma ordered_inv_cancel:
  assumes "ordered_inv F s dr dn"
  shows "ordered_inv F (stream_cancel s) dr dn"
  using assms
  by (auto simp: ordered_inv_def stream_inv_def stream_cancel_def can_close_or_enqueue_def
        next_request_def)

lemma ordered_inv_read:
  assumes "ordered_inv F s dr dn"
  shows "ordered_inv F (fst (reader_read s uuid))
           (dr @ map range (delivered (snd (reader_read s uuid))))
           (dn \<or> done_delivered (snd (reader_read s uuid)))"
proof (cases "state s")
  case Readable
  show ?thesis
  proof (cases "queue s")
    case Nil
    let ?sa = "s\<lparr>readRequests := readRequests s @ [uuid]\<rparr>"
    have "ordered_inv F ?sa dr dn"
      using assms Nil
      by (auto simp: ordered_inv_def stream_inv_def can_close_or_enqueue_def next_request_def)
    from ordered_inv_call_pull [OF this] Readable Nil show ?thesis
      by (simp add: reader_read_def)
  next
    case (Cons chunk rest)
    let ?sa = "s\<lparr>queue := rest\<rparr>"
    have a: "ordered_inv F ?sa (dr @ [range chunk]) dn" and rr: "readRequests s = []"
      using assms Cons Readable
      by (auto simp: ordered_inv_def stream_inv_def can_close_or_enqueue_def next_request_def)
    show ?thesis
    proof (cases "closeRequested ?sa \<and> rest = []")
      case True
      have "ordered_inv F (fst (stream_close ?sa)) (dr @ [range chunk]) dn"
        using a True rr
        by (auto simp: ordered_inv_def stream_inv_def can_close_or_enqueue_def stream_close_def
              next_request_def)
      with Readable Cons True rr show ?thesis
        by (simp add: reader_read_def Let_def case_prod_beta effect_simps stream_close_def
              done_delivered_append)
    next
      case False
      from ordered_inv_call_pull [OF a] Readable Cons False show ?thesis
        by (auto simp: reader_read_def Let_def case_prod_beta effect_simps
              done_delivered_append)
    qed
  qed
next
  case Closed
  with assms show ?thesis
    by (auto simp: reader_read_def ordered_inv_def)
next
  case Errored
  with assms show ?thesis
    by (auto simp: reader_read_def ordered_inv_def)
qed

lemma ordered_inv_frameNumber_enqueue:
  assumes inv: "ordered_inv F s dr dn" and fl: "inflight s = req # rest"
    and h: "honest req chunk"
  shows "ordered_inv F
           ((fst (controller_enqueue (s\<lparr>inflight := rest\<rparr>) chunk))
              \<lparr>frameNumber := snd (range chunk) + 1\<rparr>)
           (dr @ map range (delivered (snd (controller_enqueue (s\<lparr>inflight := rest\<rparr>) chunk))))
           (dn \<or> done_delivered (snd (controller_enqueue (s\<lparr>inflight := rest\<rparr>) chunk))) \<and>
         inflight (fst (controller_enqueue (s\<lparr>inflight := rest\<rparr>) chunk)) = [] \<and>
         can_close_or_enqueue (s\<lparr>inflight := rest\<rparr>)"
proof -
  from inv fl have f: "rest = []" "pulling s" "can_close_or_enqueue s" "req = next_request s"
    "frameNumber s < frameCount s" "0 < chunkSize s"
    by (auto simp: ordered_inv_def stream_inv_def)
  from h f(4) have r: "range chunk =
      (frameNumber s, min (frameNumber s + chunkSize s - 1) (frameCount s - 1))"
    by (simp add: honest_def next_request_def)
  show ?thesis
  proof (cases "readRequests s")
    case Nil
    with inv fl f r show ?thesis
      by (auto simp: ordered_inv_def stream_inv_def controller_enqueue_def
            call_pull_if_needed_def can_close_or_enqueue_def HIGH_WATER_MARK_def
            next_request_def chain_end_append split: option.splits)
  next
    case (Cons uuid rs)
    with inv fl f r show ?thesis
      by (auto simp: ordered_inv_def stream_inv_def controller_enqueue_def
            call_pull_if_needed_def can_close_or_enqueue_def HIGH_WATER_MARK_def
            next_request_def chain_end_append split: option.splits)
  qed
qed

lemma ordered_inv_pull_fulfilled:
  assumes "ordered_inv F s dr dn" "inflight s = []"
  shows "ordered_inv F (fst (pull_fulfilled s)) dr (dn \<or> done_delivered (snd (pull_fulfilled s))) \<and>
         delivered (snd (pull_fulfilled s)) = []"
proof -
  have a: "ordered_inv F (s\<lparr>pulling := False, pullAgain := False\<rparr>) dr dn"
    using assms
    by (auto simp: ordered_inv_def stream_inv_def can_close_or_enqueue_def next_request_def)
  have a': "ordered_inv F (s\<lparr>pulling := False\<rparr>) dr dn"
    using assms
    by (auto simp: ordered_inv_def stream_inv_def can_close_or_enqueue_def next_request_def)
  show ?thesis
  proof (cases "pullAgain s")
    case True
    with ordered_inv_call_pull [OF a] show ?thesis
      by (simp add: pull_fulfilled_def Let_def)
  next
    case False
    with a' show ?thesis
      by (simp add: pull_fulfilled_def Let_def)
  qed
qed

lemma ordered_inv_response:
  assumes inv: "ordered_inv F s dr dn" and h: "honest_event s (Response chunk)"
  shows "ordered_inv F (fst (fetch_response s chunk))
           (dr @ map range (delivered (snd (fetch_response s chunk))))
           (dn \<or> done_delivered (snd (fetch_response s chunk)))"
proof (cases "inflight s")
  case Nil
  with h show ?thesis by simp
next
  case (Cons req rest)
  let ?e = "controller_enqueue (s\<lparr>inflight := rest\<rparr>) chunk"
  let ?sb = "(fst ?e)\<lparr>frameNumber := snd (range chunk) + 1\<rparr>"
  from h Cons have "honest req chunk" by simp
  note e = ordered_inv_frameNumber_enqueue [OF inv Cons this]
  from e have b: "ordered_inv F ?sb (dr @ map range (delivered (snd ?e)))
      (dn \<or> done_delivered (snd ?e))" "inflight ?sb = []"
    by simp_all
  from ordered_inv_pull_fulfilled [OF b] e Cons show ?thesis
    by (simp add: fetch_response_def case_prod_beta Let_def effect_simps
          done_delivered_append disj_assoc)
qed

lemma ordered_inv_step:
  assumes "ordered_inv F s dr dn" "honest_event s ev"
  shows "ordered_inv F (fst (stream_step s ev))
           (dr @ map range (delivered (snd (stream_step s ev))))
           (dn \<or> done_delivered (snd (stream_step s ev)))"
proof (cases ev)
  case Start
  with ordered_inv_start [OF assms(1)] show ?thesis by simp
next
  case (Read uuid)
  with ordered_inv_read [OF assms(1)] show ?thesis by simp
next
  case (Response chunk)
  with ordered_inv_response [OF assms(1)] assms(2) show ?thesis by simp
next
  case Failure
  with assms(2) show ?thesis by simp
next
  case Cancel
  with ordered_inv_cancel [OF assms(1)] show ?thesis by simp
qed

lemma ordered_inv_run:
  assumes "ordered_inv F s dr dn" "honest_run s evs"
  shows "ordered_inv F (fst (stream_run s evs))
           (dr @ map range (delivered (snd (stream_run s evs))))
           (dn \<or> done_delivered (snd (stream_run s evs)))"
  using assms
proof (induction evs arbitrary: s dr dn)
  case Nil
  then show ?case by simp
next
  case (Cons ev evs)
  from Cons.prems(2) have h: "honest_event s ev" "honest_run (fst (stream_step s ev)) evs"
    by simp_all
  from Cons.IH [OF ordered_inv_step [OF Cons.prems(1) h(1)] h(2)] show ?case
    by (simp add: case_prod_beta effect_simps done_delivered_append disj_assoc)
qed

lemma ordered_inv_createReader:
  "0 < C \<Longrightarrow> 0 \<le> F \<Longrightarrow> ordered_inv F (createReader C F 0 sid src u) [] False"
  by (simp add: ordered_inv_def stream_inv_def createReader_def HIGH_WATER_MARK_def)

lemma honest_runs_ordered:
  assumes "0 < C" and "0 < F" and "honest_run (createReader C F 0 sid src u) evs"
  shows "chain 0 (map range (delivered (snd (stream_run (createReader C F 0 sid src u) evs))) @
                  map range (queue (fst (stream_run (createReader C F 0 sid src u) evs))))
           (frameNumber (fst (stream_run (createReader C F 0 sid src u) evs))) \<and>
         frameNumber (fst (stream_run (createReader C F 0 sid src u) evs)) \<le> F \<and>
         (done_delivered (snd (stream_run (createReader C F 0 sid src u) evs)) \<and>
          \<not> cancelled (fst (stream_run (createReader C F 0 sid src u) evs)) \<longrightarrow>
          chain 0 (map range (delivered (snd (stream_run (createReader C F 0 sid src u) evs)))) F)"
proof -
  let ?r = "stream_run (createReader C F 0 sid src u) evs"
  from assms(1,2) have "ordered_inv F (createReader C F 0 sid src u) [] False"
    by (simp add: ordered_inv_createReader)
  from ordered_inv_run [OF this assms(3)]
  have "ordered_inv F (fst ?r) (map range (delivered (snd ?r))) (done_delivered (snd ?r))"
    by simp
  then show ?thesis
    by (auto simp: ordered_inv_def chain_iff)
qed

lemma example_events_run:
  "honest_run example_stream example_events \<and>
   snd (stream_run example_stream example_events) =
     [Fetch (example_request 0), ReadResult ''A'' (Some (example_chunk 0 1)),
      Fetch (example_request 2), ReadResult ''A'' (Some (example_chunk 2 3)),
      Fetch (example_request 4), ReadResult ''A'' (Some (example_chunk 4 4)),
      ReadResult ''A'' None] \<and>
   \<not> cancelled (fst (stream_run example_stream example_events))"
  by (simp add: stream_defs example_stream_def example_events_def example_request_def
        example_chunk_def honest_def Let_def)

subsection \<open>A consumer that reads one chunk after the other\<close>

lemma awaiting_round:
  assumes a: "awaiting C F n uuid s" and c: "0 < C" and n: "n < F"
  defines "chunk \<equiv> \<lparr>frames = [], range = (n, min (n + C - 1) (F - 1))\<rparr>"
  defines "s' \<equiv> fst (stream_run s [Response chunk, Read uuid])"
  shows "honest_event s (Response chunk)"
    and "\<not> cancelled s'"
    and "min (n + C - 1) (F - 1) + 1 < F \<Longrightarrow>
           awaiting C F (min (n + C - 1) (F - 1) + 1) uuid s'"
    and "\<not> min (n + C - 1) (F - 1) + 1 < F \<Longrightarrow>
           done_delivered (snd (stream_run s [Response chunk, Read uuid]))"
  using a c n unfolding chunk_def s'_def
  by (auto simp: awaiting_def stream_defs2 next_request_def honest_def Let_def)

lemma stream_run_append:
  "stream_run s (xs @ ys) =
     (fst (stream_run (fst (stream_run s xs)) ys),
      snd (stream_run s xs) @ snd (stream_run (fst (stream_run s xs)) ys))"
  by (induction xs arbitrary: s) (simp_all add: case_prod_beta)

lemma honest_run_append:
  "honest_run s (xs @ ys) = (honest_run s xs \<and> honest_run (fst (stream_run s xs)) ys)"
  by (induction xs arbitrary: s) (simp_all add: case_prod_beta)

lemma sequential_completes:
  assumes "awaiting C F n uuid s" "0 < C" "n < F"
  shows "honest_run s (sequential_events C F n uuid) \<and>
         done_delivered (snd (stream_run s (sequential_events C F n uuid))) \<and>
         \<not> cancelled (fst (stream_run s (sequential_events C F n uuid)))"
  using assms
proof (induction C F n uuid arbitrary: s rule: sequential_events.induct)
  case (1 C F n uuid)
  let ?chunk = "\<lparr>frames = [], range = (n, min (n + C - 1) (F - 1))\<rparr>"
  let ?n = "min (n + C - 1) (F - 1) + 1"
  let ?two = "[Response ?chunk, Read uuid]"
  let ?s = "fst (stream_run s ?two)"
  note r = awaiting_round [OF "1.prems"]
  have ev: "sequential_events C F n uuid = ?two @ sequential_events C F ?n uuid"
    using "1.prems"(2,3) by (subst sequential_events.simps) simp
  have h2: "honest_run s ?two" using r(1) by simp
  show ?case
  proof (cases "?n < F")
    case True
    from "1.IH" [OF _ r(3) [OF True] "1.prems"(2) True] "1.prems"(2,3)
    have "honest_run ?s (sequential_events C F ?n uuid) \<and>
         done_delivered (snd (stream_run ?s (sequential_events C F ?n uuid))) \<and>
         \<not> cancelled (fst (stream_run ?s (sequential_events C F ?n uuid)))"
      by simp
    with h2 show ?thesis
      by (simp only: ev honest_run_append stream_run_append done_delivered_append fst_conv
            snd_conv simp_thms)
  next
    case False
    then have e: "sequential_events C F ?n uuid = []"
      by (subst sequential_events.simps) simp
    from r(2) r(4) [OF False] h2 show ?thesis
      by (simp only: ev e append_Nil2) simp
  qed
qed

lemma awaiting_createReader:
  "0 < C \<Longrightarrow> 0 < F \<Longrightarrow>
   awaiting C F 0 uuid (fst (stream_run (createReader C F 0 sid src u) [Read uuid, Start]))"
  by (simp add: awaiting_def stream_defs2 createReader_def next_request_def Let_def)

lemma sequential_run_completes:
  assumes "0 < C" "0 < F"
  shows "honest_run (createReader C F 0 sid src u)
           (Read uuid # Start # sequential_events C F 0 uuid) \<and>
         done_delivered (snd (stream_run (createReader C F 0 sid src u)
           (Read uuid # Start # sequential_events C F 0 uuid))) \<and>
         \<not> cancelled (fst (stream_run (createReader C F 0 sid src u)
           (Read uuid # Start # sequential_events C F 0 uuid)))"
proof -
  let ?two = "[Read uuid, Start]"
  have ev: "Read uuid # Start # sequential_events C F 0 uuid =
      ?two @ sequential_events C F 0 uuid" by simp
  have h: "honest_run (createReader C F 0 sid src u) ?two" by simp
  from sequential_completes [OF awaiting_createReader [OF assms] assms] h show ?thesis
    by (simp only: ev honest_run_append stream_run_append done_delivered_append fst_conv
          snd_conv simp_thms)
qed

text \<open>
  Claim C1. A reader is created at cursor \<open>0\<close> with chunk size \<open>C\<close> for \<open>F\<close> frames,
  and every fetch is answered with the range from its cursor to
  \<open>min (cursor + C - 1) (F - 1)\<close>. Then, in any interleaving of the responses with
  reads, start and cancel, the ranges delivered to the reads so far, followed by the
  ranges waiting in the queue, are at every moment contiguous, non-overlapping and
  increasing from frame \<open>0\<close> up to the cursor, which is the upper bound of the last
  chunk retrieved plus one and never exceeds \<open>F\<close>; and once a read is answered with
  \<^verbatim>\<open>done\<close> on a reader that was not cancelled, the delivered ranges are exactly such
  a partition of the frames \<open>0\<close> to \<open>F - 1\<close>. And the sequence does end that way: when
  the consumer reads one chunk after the other, the delivered ranges partition the
  frames \<open>0\<close> to \<open>F - 1\<close> and the last read is answered with \<^verbatim>\<open>done\<close>. The witness is
  the example of the specification: chunk size 2 and 5 frames give the ranges (0,1),
  (2,3), (4,4), and the fourth read is answered with \<^verbatim>\<open>done\<close>.
\<close>

theorem chunks_partition_frames:
  assumes "0 < C" and "0 < F" and "honest_run (createReader C F 0 sid src u) evs"
  shows "chain 0 (map range (delivered (snd (stream_run (createReader C F 0 sid src u) evs))) @
                  map range (queue (fst (stream_run (createReader C F 0 sid src u) evs))))
           (frameNumber (fst (stream_run (createReader C F 0 sid src u) evs))) \<and>
         frameNumber (fst (stream_run (createReader C F 0 sid src u) evs)) \<le> F \<and>
         (done_delivered (snd (stream_run (createReader C F 0 sid src u) evs)) \<and>
          \<not> cancelled (fst (stream_run (createReader C F 0 sid src u) evs)) \<longrightarrow>
          chain 0 (map range (delivered (snd (stream_run (createReader C F 0 sid src u) evs)))) F) \<and>
         chain 0 (map range (delivered (snd (stream_run (createReader C F 0 sid src u)
           (Read uuid # Start # sequential_events C F 0 uuid))))) F \<and>
         done_delivered (snd (stream_run (createReader C F 0 sid src u)
           (Read uuid # Start # sequential_events C F 0 uuid)))"
proof -
  let ?seq = "Read uuid # Start # sequential_events C F 0 uuid"
  note s = sequential_run_completes [OF assms(1,2), of sid src u uuid]
  from s have h: "honest_run (createReader C F 0 sid src u) ?seq" by (rule conjunct1)
  from honest_runs_ordered [OF assms(1,2) h] s
  have "chain 0 (map range (delivered (snd (stream_run (createReader C F 0 sid src u) ?seq)))) F"
    by simp
  with honest_runs_ordered [OF assms] s show ?thesis by simp
qed

theorem chunks_partition_frames_witness:
  "honest_run example_stream example_events \<and>
   map range (delivered (snd (stream_run example_stream example_events))) =
     [(0, 1), (2, 3), (4, 4)] \<and>
   done_delivered (snd (stream_run example_stream example_events)) \<and>
   chain 0 (map range (delivered (snd (stream_run example_stream example_events)))) 5"
proof -
  note r = example_events_run
  have h: "honest_run (createReader 2 5 0 ''s'' False ''u'') example_events"
    using r by (simp add: example_stream_def)
  have d: "map range (delivered (snd (stream_run example_stream example_events))) =
     [(0, 1), (2, 3), (4, 4)]"
    "done_delivered (snd (stream_run example_stream example_events))"
    using r by (simp_all add: example_chunk_def)
  have "(0::int) < 2" "(0::int) < 5" by simp_all
  from chunks_partition_frames [OF this h, of "''A''"] r d
  have "chain 0 (map range (delivered (snd (stream_run example_stream example_events)))) 5"
    by (simp add: example_stream_def)
  with r d show ?thesis by simp
qed

subsection \<open>What every reachable state of the worker satisfies\<close>

lemma stream_inv_step: "stream_inv s \<Longrightarrow> stream_inv (fst (stream_step s ev))"
proof -
  assume s: "stream_inv s"
  then have "counted_inv s (length (queue s) + length (inflight s)) 0 (length (readRequests s))"
    by (simp add: counted_inv_def stream_inv_def)
  from counted_inv_step [OF this, of ev] show ?thesis by (simp add: counted_inv_def)
qed

lemma rr_pull: "set (readRequests (fst (pull s))) \<subseteq> set (readRequests s)"
  by (simp add: pull_def controller_close_def stream_close_def controller_error_def Let_def)

lemma rr_call_pull: "set (readRequests (fst (call_pull_if_needed s))) \<subseteq> set (readRequests s)"
  using rr_pull [of "s\<lparr>pulling := True\<rparr>"] by (simp add: call_pull_if_needed_def)

lemma rr_pull_fulfilled: "set (readRequests (fst (pull_fulfilled s))) \<subseteq> set (readRequests s)"
  using rr_call_pull [of "s\<lparr>pulling := False, pullAgain := False\<rparr>"]
  by (simp add: pull_fulfilled_def Let_def)

lemma rr_enqueue:
  "set (readRequests (fst (controller_enqueue s chunk))) \<subseteq> set (readRequests s)"
proof (cases "readRequests s")
  case Nil
  with rr_call_pull [of "s\<lparr>queue := queue s @ [chunk]\<rparr>"] show ?thesis
    by (simp add: controller_enqueue_def)
next
  case (Cons u us)
  with rr_call_pull [of "s\<lparr>readRequests := us\<rparr>"] show ?thesis
    by (auto simp: controller_enqueue_def case_prod_beta)
qed

lemma rr_error: "set (readRequests (fst (controller_error s))) \<subseteq> set (readRequests s)"
  by (simp add: controller_error_def)

lemma rr_response:
  "set (readRequests (fst (fetch_response s chunk))) \<subseteq> set (readRequests s)"
proof (cases "inflight s")
  case Nil
  then show ?thesis by (simp add: fetch_response_def)
next
  case (Cons req rest)
  let ?sa = "s\<lparr>inflight := rest\<rparr>"
  show ?thesis
  proof (cases "can_close_or_enqueue ?sa")
    case False
    with Cons rr_error [of ?sa] show ?thesis by (simp add: fetch_response_def)
  next
    case True
    let ?e = "controller_enqueue ?sa chunk"
    let ?sb = "(fst ?e)\<lparr>frameNumber := snd (range chunk) + 1\<rparr>"
    from rr_pull_fulfilled [of ?sb] rr_enqueue [of ?sa chunk]
    have "set (readRequests (fst (pull_fulfilled ?sb))) \<subseteq> set (readRequests s)" by simp
    with Cons True show ?thesis
      by (simp add: fetch_response_def case_prod_beta Let_def)
  qed
qed

lemma rr_failure: "set (readRequests (fst (fetch_failure s))) \<subseteq> set (readRequests s)"
  using rr_error [of "s\<lparr>inflight := tl (inflight s)\<rparr>"]
  by (cases "inflight s") (simp_all add: fetch_failure_def)

lemma rr_read:
  "set (readRequests (fst (reader_read s uuid))) \<subseteq> insert uuid (set (readRequests s))"
proof (cases "state s")
  case Readable
  show ?thesis
  proof (cases "queue s")
    case Nil
    with Readable rr_call_pull [of "s\<lparr>readRequests := readRequests s @ [uuid]\<rparr>"]
    show ?thesis by (auto simp: reader_read_def)
  next
    case (Cons chunk rest)
    with Readable rr_call_pull [of "s\<lparr>queue := rest\<rparr>"] show ?thesis
      by (auto simp: reader_read_def case_prod_beta Let_def stream_close_def)
  qed
qed (auto simp: reader_read_def)

lemma rr_step:
  "set (readRequests (fst (stream_step s ev))) \<subseteq>
     (case ev of Read uuid \<Rightarrow> insert uuid (set (readRequests s)) | _ \<Rightarrow> set (readRequests s))"
  using rr_call_pull [of "s\<lparr>started := True\<rparr>"]
  by (cases ev)
     (simp_all add: rr_read rr_response rr_failure stream_start_def stream_cancel_def)

lemma on_stream_facts:
  assumes "i < length (streams w)"
  shows "streams (fst (on_stream E w i ev)) = (streams w)[i := fst (stream_step (streams w ! i) ev)]"
    and "stream (fst (on_stream E w i ev)) = stream w"
    and "streamId (fst (on_stream E w i ev)) = streamId w"
    and "snd (on_stream E w i ev) = deliver_all E i (snd (stream_step (streams w ! i) ev))"
  using assms by (simp_all add: on_stream_def case_prod_beta)

lemma on_stream_out_of_range: "\<not> i < length (streams w) \<Longrightarrow> on_stream E w i ev = (w, [])"
  by (simp add: on_stream_def)

lemma list_all_update: "list_all P xs \<Longrightarrow> P x \<Longrightarrow> list_all P (xs[i := x])"
  by (auto simp: list_all_iff dest!: set_update_subset_insert [THEN subsetD])

lemma worker_inv_on_stream:
  assumes "worker_inv w"
    and "\<And>uuid. ev = Read uuid \<Longrightarrow> stream w = Some i \<and> streamId w = Some uuid"
  shows "worker_inv (fst (on_stream E w i ev))"
proof (cases "i < length (streams w)")
  case False
  with assms(1) show ?thesis by (simp add: on_stream_out_of_range)
next
  case True
  let ?s = "fst (stream_step (streams w ! i) ev)"
  from assms(1) True have "stream_inv (streams w ! i)"
    by (simp add: worker_inv_def list_all_length)
  then have si: "stream_inv ?s" by (rule stream_inv_step)
  from assms(1) have all: "list_all stream_inv ((streams w)[i := ?s])"
    by (intro list_all_update si) (simp add: worker_inv_def)
  show ?thesis
  proof (cases "stream w")
    case None
    with all True show ?thesis by (simp add: worker_inv_def on_stream_facts)
  next
    case (Some j)
    from assms(1) Some have j: "j < length (streams w)"
      and rj: "\<forall>u\<in>set (readRequests (streams w ! j)). streamId w = Some u"
      by (simp_all add: worker_inv_def list_all_iff)
    have "\<forall>u\<in>set (readRequests ((streams w)[i := ?s] ! j)). streamId w = Some u"
    proof (cases "j = i")
      case False
      with rj show ?thesis by simp
    next
      case True': True
      have "set (readRequests ?s) \<subseteq> {u. streamId w = Some u}"
      proof (cases ev)
        case (Read uuid)
        from assms(2) [OF Read] have "streamId w = Some uuid" by simp
        with rr_step [of "streams w ! i" ev] Read rj True' show ?thesis by auto
      qed (use rr_step [of "streams w ! i" ev] rj True' in auto)
      with True' True show ?thesis by auto
    qed
    with all True Some j show ?thesis
      by (simp add: worker_inv_def on_stream_facts list_all_iff)
  qed
qed


lemma worker_inv_initial: "worker_inv initial_worker"
  by (simp add: worker_inv_def initial_worker_def)

lemma stream_inv_createReader: "stream_inv (createReader c n k sid src u)"
  using counted_inv_createReader [of c n k sid src u] by (simp add: counted_inv_def)

lemma worker_inv_setStream:
  assumes "worker_inv w"
  shows "worker_inv (fst (setStream E w m))"
proof -
  let ?w1 = "case stream w of None \<Rightarrow> w | Some i \<Rightarrow> fst (on_stream E w i Cancel)"
  let ?n = "length (streams ?w1)"
  let ?w2 = "?w1\<lparr>streamId := Some (msg_uuid m), stream := Some ?n,
      streams := streams ?w1 @
        [createReader (CHUNK_SIZE E) (msg_frameCount m) (msg_frameNumber m)
           (msg_sampleId m) (msg_source m) (msg_url m)]\<rparr>"
  let ?w3 = "fst (on_stream E ?w2 ?n (Read (msg_uuid m)))"
  have 1: "worker_inv ?w1"
  proof (cases "stream w")
    case None
    with assms show ?thesis by simp
  next
    case (Some i)
    have "worker_inv (fst (on_stream E w i Cancel))"
      by (rule worker_inv_on_stream [OF assms]) simp
    with Some show ?thesis by simp
  qed
  have rr: "readRequests (createReader c n k sid src u) = []" for c n k sid src u
    by (simp add: createReader_def)
  from 1 have 2: "worker_inv ?w2"
    by (simp add: worker_inv_def stream_inv_createReader rr)
  have 3: "worker_inv ?w3"
    by (rule worker_inv_on_stream [OF 2]) simp
  have "worker_inv (fst (on_stream E ?w3 ?n Start))"
    by (rule worker_inv_on_stream [OF 3]) simp
  then show ?thesis by (simp add: setStream_def Let_def case_prod_beta)
qed

lemma worker_inv_step:
  assumes "worker_inv w"
  shows "worker_inv (fst (worker_step E w ev))"
proof (cases ev)
  case (Message m)
  have r: "worker_inv (fst (requestFrameChunk E w m))"
  proof (cases "Some (msg_uuid m) = streamId w")
    case False
    with assms show ?thesis by (simp add: requestFrameChunk_def)
  next
    case True
    show ?thesis
    proof (cases "stream w")
      case None
      with assms show ?thesis by (simp add: requestFrameChunk_def)
    next
      case (Some i)
      have "worker_inv (fst (on_stream E w i (Read (msg_uuid m))))"
        by (rule worker_inv_on_stream [OF assms]) (use Some True in simp)
      with Some True show ?thesis by (simp add: requestFrameChunk_def)
    qed
  qed
  from Message assms r worker_inv_setStream [OF assms, of E m] show ?thesis
    by (auto simp: onmessage_def split: sum.splits)
next
  case (FrameResponse i chunk)
  have "worker_inv (fst (on_stream E w i (Response chunk)))"
    by (rule worker_inv_on_stream [OF assms]) simp
  with FrameResponse show ?thesis by simp
next
  case (FrameFailure i)
  have "worker_inv (fst (on_stream E w i Failure))"
    by (rule worker_inv_on_stream [OF assms]) simp
  with FrameFailure show ?thesis by simp
next
  case (SampleResponse uuid sample)
  with assms show ?thesis by simp
qed

lemma worker_inv_run:
  "worker_inv w \<Longrightarrow> worker_inv (fst (worker_run E w evs))"
proof (induction evs arbitrary: w)
  case Nil
  then show ?case by simp
next
  case (Cons ev evs)
  from Cons.IH [OF worker_inv_step [OF Cons.prems, of E ev]] show ?case
    by (simp add: case_prod_beta)
qed

subsection \<open>A reader that was superseded\<close>

lemma length_on_stream: "length (streams (fst (on_stream E w i ev))) = length (streams w)"
  by (simp add: on_stream_def case_prod_beta)

lemma nth_on_stream: "j \<noteq> i \<Longrightarrow> streams (fst (on_stream E w i ev)) ! j = streams w ! j"
  by (simp add: on_stream_def case_prod_beta)

lemma stream_on_stream: "stream (fst (on_stream E w i ev)) = stream w"
  by (simp add: on_stream_def case_prod_beta)

lemma setStream_facts:
  shows "stream (fst (setStream E w m)) = Some (length (streams w))"
    and "length (streams (fst (setStream E w m))) = Suc (length (streams w))"
    and "i < length (streams w) \<Longrightarrow>
         streams (fst (setStream E w m)) ! i =
           (if stream w = Some i then stream_cancel (streams w ! i) else streams w ! i)"
proof -
  let ?w1 = "case stream w of None \<Rightarrow> w | Some i \<Rightarrow> fst (on_stream E w i Cancel)"
  let ?n = "length (streams ?w1)"
  let ?w2 = "?w1\<lparr>streamId := Some (msg_uuid m), stream := Some ?n,
      streams := streams ?w1 @
        [createReader (CHUNK_SIZE E) (msg_frameCount m) (msg_frameNumber m)
           (msg_sampleId m) (msg_source m) (msg_url m)]\<rparr>"
  let ?w3 = "fst (on_stream E ?w2 ?n (Read (msg_uuid m)))"
  have w: "fst (setStream E w m) = fst (on_stream E ?w3 ?n Start)"
    by (simp add: setStream_def Let_def case_prod_beta)
  have n: "?n = length (streams w)"
    by (cases "stream w") (simp_all add: length_on_stream)
  show "stream (fst (setStream E w m)) = Some (length (streams w))"
    by (simp only: w stream_on_stream) (simp add: n)
  show "length (streams (fst (setStream E w m))) = Suc (length (streams w))"
    by (simp only: w length_on_stream) (simp add: n)
  show "streams (fst (setStream E w m)) ! i =
           (if stream w = Some i then stream_cancel (streams w ! i) else streams w ! i)"
    if i: "i < length (streams w)"
  proof -
    from i n have ne: "i \<noteq> ?n" by simp
    have "streams (fst (setStream E w m)) ! i = streams ?w2 ! i"
      by (simp only: w nth_on_stream [OF ne])
    also have "\<dots> = streams ?w1 ! i" using i n by (simp add: nth_append)
    also have "\<dots> = (if stream w = Some i then stream_cancel (streams w ! i) else streams w ! i)"
    proof (cases "stream w")
      case None
      then show ?thesis by simp
    next
      case (Some j)
      show ?thesis
      proof (cases "j = i")
        case True
        with Some i show ?thesis by (simp add: on_stream_def)
      next
        case False
        with Some nth_on_stream [of i j E w Cancel] show ?thesis by auto
      qed
    qed
    finally show ?thesis .
  qed
qed

lemma superseded_step:
  assumes "superseded w i" "\<not> concerns i ev"
  shows "superseded (fst (worker_step E w ev)) i \<and>
         streams (fst (worker_step E w ev)) ! i = streams w ! i"
proof -
  from assms(1) obtain j where i: "i < length (streams w)" and j: "stream w = Some j" "i < j"
    by (cases "stream w") (auto simp: superseded_def)
  have on: "superseded (fst (on_stream E w k e)) i \<and>
      streams (fst (on_stream E w k e)) ! i = streams w ! i" if "k \<noteq> i" for k e
    using that i j by (simp add: superseded_def length_on_stream stream_on_stream nth_on_stream)
  show ?thesis
  proof (cases ev)
    case (Message m)
    have r: "superseded (fst (requestFrameChunk E w m)) i \<and>
        streams (fst (requestFrameChunk E w m)) ! i = streams w ! i"
      using on [of j] j assms(1) by (auto simp: requestFrameChunk_def)
    have s: "superseded (fst (setStream E w m)) i \<and>
        streams (fst (setStream E w m)) ! i = streams w ! i"
      using i j setStream_facts(1,2) [of E w m] setStream_facts(3) [OF i, of E m]
      by (auto simp: superseded_def)
    from Message assms(1) r s show ?thesis
      by (auto simp: onmessage_def split: sum.splits)
  next
    case (FrameResponse k chunk)
    with assms(2) on [of k] show ?thesis by simp
  next
    case (FrameFailure k)
    with assms(2) on [of k] show ?thesis by simp
  next
    case (SampleResponse uuid sample)
    with assms(1) show ?thesis by simp
  qed
qed

lemma superseded_run:
  assumes "superseded w i" "\<forall>ev\<in>set evs. \<not> concerns i ev"
  shows "superseded (fst (worker_run E w evs)) i \<and>
         streams (fst (worker_run E w evs)) ! i = streams w ! i"
  using assms
proof (induction evs arbitrary: w)
  case Nil
  then show ?case by simp
next
  case (Cons ev evs)
  from Cons.prems have e: "\<not> concerns i ev" and es: "\<forall>ev\<in>set evs. \<not> concerns i ev"
    by simp_all
  from superseded_step [OF Cons.prems(1) e, of E]
  have 1: "superseded (fst (worker_step E w ev)) i"
    "streams (fst (worker_step E w ev)) ! i = streams w ! i" by simp_all
  from Cons.IH [OF 1(1) es] 1(2) show ?case by (simp add: case_prod_beta)
qed

subsection \<open>The response of the fetch of a cancelled reader\<close>

lemma cancelled_pull_queue:
  "cancelled s \<Longrightarrow> can_close_or_enqueue s \<Longrightarrow> queue (fst (pull s)) = queue s"
  by (simp add: pull_def controller_close_def stream_close_def Let_def)

lemma cancelled_call_pull_queue:
  "cancelled s \<Longrightarrow> queue (fst (call_pull_if_needed s)) = queue s"
  using cancelled_pull_queue [of "s\<lparr>pulling := True\<rparr>"]
  by (simp add: call_pull_if_needed_def should_call_pull_def can_close_or_enqueue_def)

lemma cancelled_pull_fulfilled_queue:
  "cancelled s \<Longrightarrow> queue (fst (pull_fulfilled s)) = queue s"
  using cancelled_call_pull_queue [of "s\<lparr>pulling := False, pullAgain := False\<rparr>"]
  by (simp add: pull_fulfilled_def Let_def)

lemma cancelled_response:
  assumes ca: "cancelled s" and fl: "inflight s \<noteq> []" and ce: "can_close_or_enqueue s"
  shows "deliver_all E i (snd (fetch_response s chunk)) =
           (case readRequests s of [] \<Rightarrow> [] | u # us \<Rightarrow> getSendChunk E u (Some chunk))"
    and "readRequests s = [] \<Longrightarrow> queue (fst (fetch_response s chunk)) = queue s @ [chunk]"
proof -
  from fl obtain req reqs where fl': "inflight s = req # reqs" by (cases "inflight s") auto
  let ?s0 = "s\<lparr>inflight := reqs\<rparr>"
  have ce0: "can_close_or_enqueue ?s0" using ce by (simp add: can_close_or_enqueue_def)
  let ?e = "controller_enqueue ?s0 chunk"
  let ?sb = "(fst ?e)\<lparr>frameNumber := snd (range chunk) + 1\<rparr>"
  have r: "fetch_response s chunk = (fst (pull_fulfilled ?sb), snd ?e @ snd (pull_fulfilled ?sb))"
    using fl' ce0 by (simp add: fetch_response_def case_prod_beta Let_def)
  have cb: "cancelled ?sb"
    using ca cancelled_call_pull [of "?s0\<lparr>readRequests := tl (readRequests s)\<rparr>"]
      cancelled_call_pull [of "?s0\<lparr>queue := queue s @ [chunk]\<rparr>"]
    by (cases "readRequests s") (simp_all add: controller_enqueue_def case_prod_beta)
  have e: "deliver_all E i (snd ?e) =
      (case readRequests s of [] \<Rightarrow> [] | u # us \<Rightarrow> getSendChunk E u (Some chunk))"
  proof (cases "readRequests s")
    case Nil
    with ca cancelled_call_pull_quiet [of "?s0\<lparr>queue := queue s @ [chunk]\<rparr>" E i]
    show ?thesis by (simp add: controller_enqueue_def)
  next
    case (Cons u us)
    with ca cancelled_call_pull_quiet [of "?s0\<lparr>readRequests := us\<rparr>" E i]
    show ?thesis by (simp add: controller_enqueue_def case_prod_beta deliver_all_simps)
  qed
  from e cancelled_pull_fulfilled_quiet [OF cb, of E i]
  show "deliver_all E i (snd (fetch_response s chunk)) =
           (case readRequests s of [] \<Rightarrow> [] | u # us \<Rightarrow> getSendChunk E u (Some chunk))"
    by (simp add: r deliver_all_simps)
  assume n: "readRequests s = []"
  with ca cancelled_call_pull_queue [of "?s0\<lparr>queue := queue s @ [chunk]\<rparr>"]
  have "queue ?sb = queue s @ [chunk]" by (simp add: controller_enqueue_def)
  with cancelled_pull_fulfilled_queue [OF cb]
  show "queue (fst (fetch_response s chunk)) = queue s @ [chunk]" by (simp add: r)
qed

subsection \<open>A response that arrives after its session was superseded\<close>

text \<open>
  Claim C3, as stated, fails. Session \<open>A\<close> is started, session \<open>B\<close> supersedes it while
  the first fetch of \<open>A\<close> is pending, then the response of that fetch arrives: the worker
  posts the chunk as a \<^verbatim>\<open>frameChunk\<close> message tagged \<open>A\<close>, although the current session
  is \<open>B\<close>. \<^verbatim>\<open>getSendChunk\<close> compares no session ids; \<^verbatim>\<open>setStream\<close> only flags the old
  reader, whose pending read still takes the chunk.
\<close>

theorem late_chunk_is_posted:
  "snd (worker_run example_env initial_worker
     [Message (example_message ''setStream'' ''A''),
      Message (example_message ''setStream'' ''B''),
      FrameResponse 0 (example_chunk 0 1)]) =
     [FetchFrames 0 (example_request 0), FetchFrames 1 (example_request 0),
      Post (FrameChunkOut [] (0, 1) ''A'' [])] \<and>
   streamId (fst (worker_run example_env initial_worker
     [Message (example_message ''setStream'' ''A''),
      Message (example_message ''setStream'' ''B''),
      FrameResponse 0 (example_chunk 0 1)])) = Some ''B''"
  by (simp add: worker_defs stream_defs example_message_def example_env_def
        example_stream_def example_request_def example_chunk_def Let_def)

text \<open>
  Claim C3, amended. Take any state the worker reaches, with current reader \<open>i\<close> and
  session id \<open>a\<close>, in which a fetch of that reader is pending, and let a \<^verbatim>\<open>setStream\<close>
  message supersede the session. Then the new session id is current and reader \<open>i\<close> is
  flagged cancelled and is no longer the current reader; and when the response of its
  fetch arrives later, whatever messages and events of other readers came in between,
  no session id is compared and \<^verbatim>\<open>streamId\<close> is left as it is. If a read of reader
  \<open>i\<close> was waiting when the session was superseded, the chunk is normalized and posted
  as a \<^verbatim>\<open>frameChunk\<close> message tagged with the old session id \<open>a\<close>, and nothing else is
  posted or fetched (nothing at all if normalizing the chunk throws). If no read was
  waiting, nothing is posted: the chunk is appended to the queue of the superseded
  reader, which no request reads any more.
\<close>

theorem late_response_of_superseded_session:
  assumes cur: "stream (fst (worker_run E initial_worker evs)) = Some i"
    and sid: "streamId (fst (worker_run E initial_worker evs)) = Some a"
    and pend: "inflight (streams (fst (worker_run E initial_worker evs)) ! i) \<noteq> []"
    and m: "msg_method m = ''setStream''"
    and quiet: "\<forall>ev\<in>set evs'. \<not> concerns i ev"
  shows "let w = fst (worker_run E initial_worker evs);
             w1 = fst (worker_run E w (Message m # evs'));
             r = worker_step E w1 (FrameResponse i chunk)
         in streamId (fst (worker_step E w (Message m))) = Some (msg_uuid m) \<and>
            cancelled (streams w1 ! i) \<and> stream w1 \<noteq> Some i \<and>
            streamId (fst r) = streamId w1 \<and>
            snd r =
              (case readRequests (streams w ! i) of
                 [] \<Rightarrow> []
               | u # us \<Rightarrow>
                   (case handleFrames E (frames chunk) of
                      Inl e \<Rightarrow> []
                    | Inr (buffers, frames') \<Rightarrow>
                        [Post (FrameChunkOut frames' (range chunk) a buffers)])) \<and>
            (readRequests (streams w ! i) = [] \<longrightarrow>
               queue (streams (fst r) ! i) = queue (streams w ! i) @ [chunk])"
proof -
  let ?w = "fst (worker_run E initial_worker evs)"
  let ?s = "streams ?w ! i"
  let ?wa = "fst (worker_step E ?w (Message m))"
  let ?wb = "fst (worker_run E ?w (Message m # evs'))"
  let ?r = "worker_step E ?wb (FrameResponse i chunk)"
  have inv: "worker_inv ?w" by (rule worker_inv_run [OF worker_inv_initial])
  with cur have i: "i < length (streams ?w)"
    and rr: "\<forall>u\<in>set (readRequests ?s). streamId ?w = Some u"
    and si: "stream_inv ?s"
    by (simp_all add: worker_inv_def list_all_iff)
  from si pend have ce: "can_close_or_enqueue ?s" by (auto simp: stream_inv_def)
  have w0: "?wa = fst (setStream E ?w m)" using m by (simp add: onmessage_def)
  have id0: "streamId ?wa = Some (msg_uuid m)" by (simp only: w0 streamId_setStream)
  from setStream_facts(1,2) [of E ?w m] setStream_facts(3) [OF i, of E m] cur i
  have s0: "superseded ?wa i" and n0: "streams ?wa ! i = stream_cancel ?s"
    by (simp_all only: w0) (simp_all add: superseded_def)
  have w1: "?wb = fst (worker_run E ?wa evs')" by (simp add: case_prod_beta)
  from superseded_run [OF s0 quiet, of E] n0
  have s1: "superseded ?wb i" and n1: "streams ?wb ! i = stream_cancel ?s"
    by (simp_all only: w1)
  from s1 have i1: "i < length (streams ?wb)" and c1: "stream ?wb \<noteq> Some i"
    by (auto simp: superseded_def split: option.splits)
  have ca: "cancelled (stream_cancel ?s)" "inflight (stream_cancel ?s) \<noteq> []"
    "can_close_or_enqueue (stream_cancel ?s)"
    "readRequests (stream_cancel ?s) = readRequests ?s"
    "queue (stream_cancel ?s) = queue ?s"
    using pend ce by (simp_all add: stream_cancel_def can_close_or_enqueue_def)
  have r: "?r = on_stream E ?wb i (Response chunk)" by (simp only: worker_step.simps)
  have out: "snd ?r =
      (case readRequests ?s of [] \<Rightarrow> [] | u # us \<Rightarrow> getSendChunk E u (Some chunk))"
    using cancelled_response(1) [OF ca(1,2,3), of E i chunk] i1
    by (simp only: r on_stream_facts(4) [OF i1] n1 stream_step.simps ca(4))
  have tag: "getSendChunk E u (Some chunk) =
      (case handleFrames E (frames chunk) of
         Inl e \<Rightarrow> []
       | Inr (buffers, frames') \<Rightarrow> [Post (FrameChunkOut frames' (range chunk) a buffers)])"
    if "readRequests ?s = u # us" for u us
  proof -
    from rr that sid have "u = a" by simp
    then show ?thesis by (simp add: getSendChunk_def)
  qed
  have out': "snd ?r =
      (case readRequests ?s of
         [] \<Rightarrow> []
       | u # us \<Rightarrow>
           (case handleFrames E (frames chunk) of
              Inl e \<Rightarrow> []
            | Inr (buffers, frames') \<Rightarrow>
                [Post (FrameChunkOut frames' (range chunk) a buffers)]))"
  proof (cases "readRequests ?s")
    case Nil
    with out show ?thesis by simp
  next
    case (Cons u us)
    with out tag [OF Cons] show ?thesis by simp
  qed
  have q: "queue (streams (fst ?r) ! i) = queue ?s @ [chunk]" if "readRequests ?s = []"
  proof -
    from that ca(4) have "readRequests (stream_cancel ?s) = []" by simp
    from cancelled_response(2) [OF ca(1,2,3) this, of chunk] i1 show ?thesis
      by (simp only: r on_stream_facts(1) [OF i1] n1 stream_step.simps ca(5))
         simp
  qed
  have id: "streamId (fst ?r) = streamId ?wb"
    by (simp only: r streamId_on_stream)
  from n1 ca(1) have c: "cancelled (streams ?wb ! i)" by simp
  show ?thesis
    unfolding Let_def
  proof (intro conjI impI)
    show "streamId ?wa = Some (msg_uuid m)" by (rule id0)
    show "cancelled (streams ?wb ! i)" by (rule c)
    show "stream ?wb \<noteq> Some i" by (rule c1)
    show "streamId (fst ?r) = streamId ?wb" by (rule id)
    show "snd ?r =
      (case readRequests ?s of
         [] \<Rightarrow> []
       | u # us \<Rightarrow>
           (case handleFrames E (frames chunk) of
              Inl e \<Rightarrow> []
            | Inr (buffers, frames') \<Rightarrow>
                [Post (FrameChunkOut frames' (range chunk) a buffers)]))"
      by (rule out')
    assume "readRequests ?s = []"
    then show "queue (streams (fst ?r) ! i) = queue ?s @ [chunk]" by (rule q)
  qed
qed

theorem late_response_of_superseded_session_witness:
  "snd (worker_step example_env
     (fst (worker_run example_env
        (fst (worker_run example_env initial_worker
           [Message (example_message ''setStream'' ''A'')]))
        [Message (example_message ''setStream'' ''B''), FrameResponse 1 (example_chunk 0 1)]))
     (FrameResponse 0 (example_chunk 0 1))) =
     [Post (FrameChunkOut [] (0, 1) ''A'' [])] \<and>
   streamId (fst (worker_step example_env
     (fst (worker_run example_env initial_worker
        [Message (example_message ''setStream'' ''A'')]))
     (Message (example_message ''setStream'' ''B'')))) = Some ''B''"
proof -
  let ?w = "fst (worker_run example_env initial_worker
    [Message (example_message ''setStream'' ''A'')])"
  have w: "?w = \<lparr>stream = Some 0, streamId = Some ''A'',
      streams = [example_stream\<lparr>started := True, pulling := True,
        readRequests := [''A''], inflight := [example_request 0]\<rparr>]\<rparr>"
    by (simp add: worker_defs stream_defs example_message_def example_env_def
          example_stream_def example_request_def Let_def)
  have h: "stream ?w = Some 0" "streamId ?w = Some ''A''"
    "inflight (streams ?w ! 0) \<noteq> []"
    "msg_method (example_message ''setStream'' ''B'') = ''setStream''"
    "\<forall>ev\<in>set [FrameResponse 1 (example_chunk 0 1)]. \<not> concerns 0 ev"
    by (simp_all only: w) (simp_all add: example_message_def)
  have rr: "readRequests (streams ?w ! 0) = [''A'']" by (simp only: w) simp
  have fr: "handleFrames example_env (frames (example_chunk 0 1)) = Inr ([], [])"
    by (simp add: handleFrames_def example_chunk_def)
  have rg: "range (example_chunk 0 1) = (0, 1)" by (simp add: example_chunk_def)
  have u: "msg_uuid (example_message ''setStream'' ''B'') = ''B''"
    by (simp add: example_message_def)
  note t = late_response_of_superseded_session [OF h, of "example_chunk 0 1", unfolded Let_def]
  note a = t [THEN conjunct1]
  note b = t [THEN conjunct2, THEN conjunct2, THEN conjunct2, THEN conjunct2, THEN conjunct1]
  from b have "snd (worker_step example_env
     (fst (worker_run example_env ?w
        [Message (example_message ''setStream'' ''B''), FrameResponse 1 (example_chunk 0 1)]))
     (FrameResponse 0 (example_chunk 0 1))) = [Post (FrameChunkOut [] (0, 1) ''A'' [])]"
    by (simp only: rr fr rg list.case sum.case prod.case)
  moreover from a have "streamId (fst (worker_step example_env ?w
     (Message (example_message ''setStream'' ''B'')))) = Some ''B''"
    by (simp only: u)
  ultimately show ?thesis by (rule conjI)
qed

subsection \<open>Requests at the end of a stream\<close>

lemma terminated_pull_quiet:
  "frameCount s \<le> frameNumber s \<or> cancelled s \<Longrightarrow> deliver_all E i (snd (pull s)) = []"
  by (simp add: pull_def controller_close_def stream_close_def controller_error_def Let_def
        deliver_done deliver_rejected deliver_all_simps split: prod.splits)

lemma terminated_pull_queue:
  "frameCount s \<le> frameNumber s \<or> cancelled s \<Longrightarrow> can_close_or_enqueue s \<Longrightarrow>
   queue (fst (pull s)) = queue s"
  by (auto simp: pull_def controller_close_def stream_close_def Let_def)

lemma terminated_call_pull:
  assumes "frameCount s \<le> frameNumber s \<or> cancelled s"
  shows "deliver_all E i (snd (call_pull_if_needed s)) = []"
    and "queue (fst (call_pull_if_needed s)) = queue s"
  using assms terminated_pull_quiet [of "s\<lparr>pulling := True\<rparr>" E i]
    terminated_pull_queue [of "s\<lparr>pulling := True\<rparr>"]
  by (simp_all add: call_pull_if_needed_def deliver_all_simps should_call_pull_def
        can_close_or_enqueue_def)

lemma terminated_read:
  assumes "frameCount s \<le> frameNumber s \<or> cancelled s"
  shows "deliver_all E i (snd (reader_read s uuid)) =
           (case state s of
              Readable \<Rightarrow>
                (case queue s of [] \<Rightarrow> [] | chunk # rest \<Rightarrow> getSendChunk E uuid (Some chunk))
            | Closed \<Rightarrow> []
            | Errored \<Rightarrow> [])"
    and "state s \<noteq> Readable \<Longrightarrow> fst (reader_read s uuid) = s"
    and "state s = Readable \<Longrightarrow> queue s = chunk # rest \<Longrightarrow>
         queue (fst (reader_read s uuid)) = rest"
proof -
  show "state s \<noteq> Readable \<Longrightarrow> fst (reader_read s uuid) = s"
    by (cases "state s") (simp_all add: reader_read_def)
  show "deliver_all E i (snd (reader_read s uuid)) =
           (case state s of
              Readable \<Rightarrow>
                (case queue s of [] \<Rightarrow> [] | chunk # rest \<Rightarrow> getSendChunk E uuid (Some chunk))
            | Closed \<Rightarrow> []
            | Errored \<Rightarrow> [])"
  proof (cases "state s")
    case Readable
    show ?thesis
    proof (cases "queue s")
      case Nil
      with Readable assms
        terminated_call_pull(1) [of "s\<lparr>readRequests := readRequests s @ [uuid]\<rparr>" E i]
      show ?thesis by (simp add: reader_read_def)
    next
      case (Cons c cs)
      with Readable assms terminated_call_pull(1) [of "s\<lparr>queue := cs\<rparr>" E i]
      show ?thesis
        by (simp add: reader_read_def case_prod_beta Let_def stream_close_def
              deliver_all_simps deliver_done)
    qed
  qed (simp_all add: reader_read_def deliver_all_simps getSendChunk_def)
  show "queue (fst (reader_read s uuid)) = rest"
    if "state s = Readable" "queue s = chunk # rest"
    using that assms terminated_call_pull(2) [of "s\<lparr>queue := rest\<rparr>"]
    by (simp add: reader_read_def case_prod_beta Let_def stream_close_def)
qed

text \<open>
  Claim C10, as stated, fails. The stream reads ahead: after three responses the cursor
  of the example has reached the frame count and the source has terminated, yet two
  chunks are still buffered, and a \<^verbatim>\<open>requestFrameChunk\<close> with the current session id
  is answered with the first of them.
\<close>

theorem buffered_chunk_is_posted:
  "fst (worker_run example_env initial_worker
     [Message (example_message ''setStream'' ''A''),
      FrameResponse 0 (example_chunk 0 1),
      FrameResponse 0 (example_chunk 2 3),
      FrameResponse 0 (example_chunk 4 4)]) = example_buffered \<and>
   stream example_buffered = Some 0 \<and> streamId example_buffered = Some ''A'' \<and>
   frameCount (streams example_buffered ! 0) \<le> frameNumber (streams example_buffered ! 0) \<and>
   onmessage example_env example_buffered (example_message ''requestFrameChunk'' ''A'') =
     Inr (example_buffered', [Post (FrameChunkOut [] (2, 3) ''A'' [])])"
  by (simp add: worker_defs stream_defs example_message_def example_env_def
        example_stream_def example_request_def example_chunk_def Let_def
        example_buffered_def example_buffered'_def)

text \<open>
  Claim C10, amended. A \<^verbatim>\<open>requestFrameChunk\<close> with the current session id whose source
  has terminated (its cursor has reached the frame count, or it was cancelled) never
  makes the worker fetch, and what it posts depends on the stream alone. If the stream
  is closed or in error, nothing is posted and nothing changes: at the level of
  messages the request cannot be told from one for a stale session. If the stream is
  still readable and a chunk is buffered, the oldest buffered chunk is taken from the
  queue, normalized and posted as a \<^verbatim>\<open>frameChunk\<close> message tagged with the session id;
  nothing is posted if normalizing it throws. If the stream is readable and nothing is
  buffered, nothing is posted.
\<close>

theorem requestFrameChunk_terminated_source:
  assumes "msg_method m = ''requestFrameChunk''"
    and "streamId w = Some (msg_uuid m)" and "stream w = Some i"
    and "i < length (streams w)"
    and "frameCount (streams w ! i) \<le> frameNumber (streams w ! i) \<or> cancelled (streams w ! i)"
  shows "\<exists>w'. onmessage E w m =
           Inr (w',
             (case state (streams w ! i) of
                Readable \<Rightarrow>
                  (case queue (streams w ! i) of
                     [] \<Rightarrow> []
                   | chunk # rest \<Rightarrow>
                       (case handleFrames E (frames chunk) of
                          Inl e \<Rightarrow> []
                        | Inr (buffers, frames') \<Rightarrow>
                            [Post (FrameChunkOut frames' (range chunk) (msg_uuid m) buffers)]))
              | Closed \<Rightarrow> []
              | Errored \<Rightarrow> [])) \<and>
         (state (streams w ! i) \<noteq> Readable \<longrightarrow> w' = w) \<and>
         (\<forall>chunk rest. state (streams w ! i) = Readable \<and> queue (streams w ! i) = chunk # rest \<longrightarrow>
            queue (streams w' ! i) = rest)"
proof -
  let ?s = "streams w ! i"
  let ?w' = "fst (on_stream E w i (Read (msg_uuid m)))"
  note t = terminated_read [OF assms(5)]
  have o: "onmessage E w m = Inr (on_stream E w i (Read (msg_uuid m)))"
    using assms(1,2,3) by (simp add: onmessage_def requestFrameChunk_def)
  have out: "snd (on_stream E w i (Read (msg_uuid m))) =
      (case state ?s of
         Readable \<Rightarrow>
           (case queue ?s of
              [] \<Rightarrow> []
            | chunk # rest \<Rightarrow>
                (case handleFrames E (frames chunk) of
                   Inl e \<Rightarrow> []
                 | Inr (buffers, frames') \<Rightarrow>
                     [Post (FrameChunkOut frames' (range chunk) (msg_uuid m) buffers)]))
       | Closed \<Rightarrow> []
       | Errored \<Rightarrow> [])"
    using t(1) [of E i "msg_uuid m"]
    by (simp add: on_stream_facts(4) [OF assms(4)] getSendChunk_def
          split: stream_state.splits list.splits)
  have same: "?w' = w" if "state ?s \<noteq> Readable"
    using t(2) [OF that, of "msg_uuid m"]
    by (simp add: on_stream_def assms(4) case_prod_beta)
  have q: "queue (streams ?w' ! i) = rest" if "state ?s = Readable" "queue ?s = chunk # rest"
    for chunk rest
    using t(3) [OF that, of "msg_uuid m"] assms(4)
    by (simp add: on_stream_facts(1) [OF assms(4)])
  have p: "on_stream E w i (Read (msg_uuid m)) =
      (?w', snd (on_stream E w i (Read (msg_uuid m))))"
    by simp
  show ?thesis
  proof (intro exI [of _ ?w'] conjI impI allI)
    from o p out show "onmessage E w m =
           Inr (?w',
             (case state ?s of
                Readable \<Rightarrow>
                  (case queue ?s of
                     [] \<Rightarrow> []
                   | chunk # rest \<Rightarrow>
                       (case handleFrames E (frames chunk) of
                          Inl e \<Rightarrow> []
                        | Inr (buffers, frames') \<Rightarrow>
                            [Post (FrameChunkOut frames' (range chunk) (msg_uuid m) buffers)]))
              | Closed \<Rightarrow> []
              | Errored \<Rightarrow> []))"
      by (simp only:)
    show "?w' = w" if "state ?s \<noteq> Readable" using that by (rule same)
    show "queue (streams ?w' ! i) = rest"
      if "state ?s = Readable \<and> queue ?s = chunk # rest" for chunk rest
      using that by (intro q) simp_all
  qed
qed

theorem requestFrameChunk_terminated_source_witness:
  "(\<exists>w'. onmessage example_env example_buffered (example_message ''requestFrameChunk'' ''A'') =
      Inr (w', [Post (FrameChunkOut [] (2, 3) ''A'' [])]) \<and>
      queue (streams w' ! 0) = [example_chunk 4 4]) \<and>
   onmessage example_env example_drained (example_message ''requestFrameChunk'' ''A'') =
     Inr (example_drained, [])"
proof -
  have m: "msg_method (example_message ''requestFrameChunk'' ''A'') = ''requestFrameChunk''"
    "msg_uuid (example_message ''requestFrameChunk'' ''A'') = ''A''"
    by (simp_all add: example_message_def)
  have b: "streamId example_buffered = Some (msg_uuid (example_message ''requestFrameChunk'' ''A''))"
    "stream example_buffered = Some 0" "0 < length (streams example_buffered)"
    "frameCount (streams example_buffered ! 0) \<le> frameNumber (streams example_buffered ! 0) \<or>
     cancelled (streams example_buffered ! 0)"
    by (simp_all add: m example_buffered_def example_stream_def createReader_def)
  have bs: "state (streams example_buffered ! 0) = Readable"
    "queue (streams example_buffered ! 0) = [example_chunk 2 3, example_chunk 4 4]"
    "handleFrames example_env (frames (example_chunk 2 3)) = Inr ([], [])"
    "range (example_chunk 2 3) = (2, 3)"
    by (simp_all add: example_buffered_def example_stream_def createReader_def
          example_chunk_def handleFrames_def)
  have d: "streamId example_drained = Some (msg_uuid (example_message ''requestFrameChunk'' ''A''))"
    "stream example_drained = Some 0" "0 < length (streams example_drained)"
    "frameCount (streams example_drained ! 0) \<le> frameNumber (streams example_drained ! 0) \<or>
     cancelled (streams example_drained ! 0)"
    by (simp_all add: m example_drained_def example_stream_def createReader_def)
  have ds: "state (streams example_drained ! 0) = Closed"
    by (simp add: example_drained_def)
  note tb = requestFrameChunk_terminated_source
    [OF m(1) b, of example_env,
     unfolded bs m(2) stream_state.case list.case sum.case prod.case]
  from tb obtain w' where
    1: "onmessage example_env example_buffered (example_message ''requestFrameChunk'' ''A'') =
      Inr (w', [Post (FrameChunkOut [] (2, 3) ''A'' [])])"
    and 2: "\<forall>chunk rest. Readable = Readable \<and>
        [example_chunk 2 3, example_chunk 4 4] = chunk # rest \<longrightarrow>
        queue (streams w' ! 0) = rest"
    by (elim exE conjE)
  from 2 [rule_format, of "example_chunk 2 3" "[example_chunk 4 4]"]
  have "queue (streams w' ! 0) = [example_chunk 4 4]" by simp
  with 1 have x: "\<exists>w'. onmessage example_env example_buffered
        (example_message ''requestFrameChunk'' ''A'') =
      Inr (w', [Post (FrameChunkOut [] (2, 3) ''A'' [])]) \<and>
      queue (streams w' ! 0) = [example_chunk 4 4]"
    by (intro exI conjI)
  note td = requestFrameChunk_terminated_source
    [OF m(1) d, of example_env, unfolded ds m(2) stream_state.case]
  from td obtain w'' where
    3: "onmessage example_env example_drained (example_message ''requestFrameChunk'' ''A'') =
      Inr (w'', [])"
    and 4: "Closed \<noteq> Readable \<longrightarrow> w'' = example_drained"
    by (elim exE conjE)
  from 4 have "w'' = example_drained" by simp
  with 3 have y: "onmessage example_env example_drained
      (example_message ''requestFrameChunk'' ''A'') = Inr (example_drained, [])"
    by simp
  from x y show ?thesis by (rule conjI)
qed

end
